theory Spec2Isabelle
  imports Complex_Main "HOL-Library.Signed_Division"
begin

section \<open>Errors and BigInt arithmetic\<close>

text \<open>
  Every \<^verbatim>\<open>throw\<close> of the two scripts, and every exception a JavaScript primitive
  raises in them, is a value of \<open>error\<close>:
  \<^item> \<open>RangeError\<close>: BigInt division or remainder by \<open>0n\<close>, and \<open>BigInt(NaN)\<close>;
  \<^item> \<open>SyntaxError\<close>: \<open>BigInt(string)\<close> on a string that is not an integer literal;
  \<^item> \<open>DecodeError\<close>: the \<^verbatim>\<open>Failed to decode value\<close> error of \<open>decodeYValue\<close>;
  \<^item> \<open>NoShares\<close>: \<^verbatim>\<open>No shares provided for reconstruction.\<close>;
  \<^item> \<open>DegenerateShares\<close>: \<^verbatim>\<open>Invalid shares: Duplicate x-coordinate ...\<close>;
  \<^item> \<open>NoInverseExists\<close>: \<^verbatim>\<open>No modular inverse for a modulo m\<close>;
  \<^item> \<open>InvalidThreshold\<close>: \<^verbatim>\<open>Invalid 'n'\<close> and \<^verbatim>\<open>Invalid 'k'\<close> of \<open>processTestCase\<close>;
  \<^item> \<open>InsufficientShares\<close>: \<^verbatim>\<open>Insufficient valid shares provided\<close>.
  A BigInt is an \<open>int\<close>.
\<close>

datatype error =
    RangeError
  | SyntaxError
  | DecodeError
  | NoShares
  | DegenerateShares
  | NoInverseExists
  | InvalidThreshold
  | InsufficientShares

text \<open>The BigInt operators \<^verbatim>\<open>%\<close> and \<^verbatim>\<open>/\<close>: both truncate towards zero and raise on a
  zero divisor.\<close>

definition bigint_rem :: "int \<Rightarrow> int \<Rightarrow> error + int" where
  "bigint_rem n m = (if m = 0 then Inl RangeError else Inr (n smod m))"

definition bigint_div :: "int \<Rightarrow> int \<Rightarrow> error + int" where
  "bigint_div n m = (if m = 0 then Inl RangeError else Inr (n sdiv m))"

section \<open>Modular arithmetic (shamir.js)\<close>

text \<open>\<^verbatim>\<open>function mod(n, m) { return ((n % m) + m) % m; }\<close>\<close>

definition mod_js :: "int \<Rightarrow> int \<Rightarrow> error + int" where
  "mod_js n m =
     (case bigint_rem n m of
        Inl e \<Rightarrow> Inl e
      | Inr r \<Rightarrow> bigint_rem (r + m) m)"

text \<open>
  \<open>modInverse\<close>: \<open>a\<close> is reduced first, then \<open>x\<close> runs from \<open>1n\<close> while \<open>x < m\<close>; the
  first \<open>x\<close> with \<open>mod(a * x, m) === 1n\<close> is returned, and the function throws when the
  loop ends without one.
\<close>

function modInverse_loop :: "int \<Rightarrow> int \<Rightarrow> int \<Rightarrow> error + int" where
  "modInverse_loop a m x =
     (if x < m then
        (case mod_js (a * x) m of
           Inl e \<Rightarrow> Inl e
         | Inr r \<Rightarrow> if r = 1 then Inr x else modInverse_loop a m (x + 1))
      else Inl NoInverseExists)"
  by pat_completeness auto
termination
  by (relation "measure (\<lambda>(a, m, x). nat (m - x))") auto

declare modInverse_loop.simps [simp del]

definition modInverse :: "int \<Rightarrow> int \<Rightarrow> error + int" where
  "modInverse a m =
     (case mod_js a m of
        Inl e \<Rightarrow> Inl e
      | Inr a' \<Rightarrow> modInverse_loop a' m 1)"

section \<open>Finite-field reconstruction (shamir.js)\<close>

text \<open>A share is the object \<^verbatim>\<open>{ x: x, y: y }\<close> of two BigInts.\<close>

record share =
  share_x :: int
  share_y :: int

text \<open>
  The inner loop of \<open>reconstructSecret\<close>, \<^verbatim>\<open>for (let m = 0; m < shares.length; m++)\<close>,
  over the indices still to visit, with the running \<open>numerator\<close> and \<open>denominator\<close>.
\<close>

fun reconstruct_inner ::
  "share list \<Rightarrow> int \<Rightarrow> nat \<Rightarrow> int \<Rightarrow> nat list \<Rightarrow> int \<times> int \<Rightarrow> error + int \<times> int" where
  "reconstruct_inner shares prime j xj [] (numerator, denominator) = Inr (numerator, denominator)"
| "reconstruct_inner shares prime j xj (m # ms) (numerator, denominator) =
     (if j = m then reconstruct_inner shares prime j xj ms (numerator, denominator)
      else
        (let xm = share_x (shares ! m) in
         case mod_js (numerator * xm) prime of
           Inl e \<Rightarrow> Inl e
         | Inr numerator' \<Rightarrow>
            (case mod_js (xm - xj) prime of
               Inl e \<Rightarrow> Inl e
             | Inr diff \<Rightarrow>
                 if diff = 0 then Inl DegenerateShares
                 else
                   (case mod_js (denominator * diff) prime of
                      Inl e \<Rightarrow> Inl e
                    | Inr denominator' \<Rightarrow>
                        reconstruct_inner shares prime j xj ms (numerator', denominator')))))"

text \<open>
  The outer loop, \<^verbatim>\<open>for (let j = 0; j < shares.length; j++)\<close>, with the running
  \<open>secret\<close>.
\<close>

fun reconstruct_outer :: "share list \<Rightarrow> int \<Rightarrow> nat list \<Rightarrow> int \<Rightarrow> error + int" where
  "reconstruct_outer shares prime [] secret = Inr secret"
| "reconstruct_outer shares prime (j # js) secret =
     (let xj = share_x (shares ! j); yj = share_y (shares ! j) in
      case reconstruct_inner shares prime j xj [0..<length shares] (1, 1) of
        Inl e \<Rightarrow> Inl e
      | Inr (numerator, denominator) \<Rightarrow>
         (case modInverse denominator prime of
            Inl e \<Rightarrow> Inl e
          | Inr denInv \<Rightarrow>
             (case mod_js (yj * denInv) prime of
                Inl e \<Rightarrow> Inl e
              | Inr term1 \<Rightarrow>
                 (case mod_js (term1 * numerator) prime of
                    Inl e \<Rightarrow> Inl e
                  | Inr term2 \<Rightarrow>
                     (case mod_js (secret + term2) prime of
                        Inl e \<Rightarrow> Inl e
                      | Inr secret' \<Rightarrow> reconstruct_outer shares prime js secret')))))"

definition reconstructSecret :: "share list \<Rightarrow> int \<Rightarrow> error + int" where
  "reconstructSecret shares prime =
     (if length shares = 0 then Inl NoShares
      else reconstruct_outer shares prime [0..<length shares] 0)"

section \<open>JavaScript numbers and string-to-number conversion\<close>

text \<open>
  The Numbers the scripts handle come from \<open>parseInt\<close> and from the \<open>n\<close> and \<open>k\<close> of the
  parsed input: integers, and \<open>NaN\<close>. An integer Number is modelled exactly (the rounding
  of doubles beyond \<open>2^53\<close> is not part of the model).
\<close>

datatype number = NaN | Num int

text \<open>
  The value of a character as a digit: \<open>0-9\<close>, then \<open>a-z\<close> or \<open>A-Z\<close> for ten to
  thirty-five. Strings are ASCII strings (a \<open>char\<close> is a byte): no byte outside ASCII is
  a digit, as no code point outside ASCII is one in JavaScript.
\<close>

definition digit_value :: "char \<Rightarrow> nat option" where
  "digit_value c =
     (let n = (of_char c :: nat) in
      if 48 \<le> n \<and> n \<le> 57 then Some (n - 48)
      else if 97 \<le> n \<and> n \<le> 122 then Some (n - 87)
      else if 65 \<le> n \<and> n \<le> 90 then Some (n - 55)
      else None)"

text \<open>
  White space and line terminators: tab, LF, VT, FF, CR and space. The Unicode white
  space beyond ASCII, which JavaScript trims as well, is not modelled.
\<close>

definition is_space :: "char \<Rightarrow> bool" where
  "is_space c = ((of_char c :: nat) = 9 \<or> (of_char c :: nat) = 10 \<or> (of_char c :: nat) = 11
     \<or> (of_char c :: nat) = 12 \<or> (of_char c :: nat) = 13 \<or> (of_char c :: nat) = 32)"

text \<open>The digits of the longest prefix made of digits of radix \<open>R\<close>, and their value.\<close>

fun radix_prefix :: "nat \<Rightarrow> string \<Rightarrow> nat list" where
  "radix_prefix R [] = []"
| "radix_prefix R (c # cs) =
     (case digit_value c of
        None \<Rightarrow> []
      | Some d \<Rightarrow> if d < R then d # radix_prefix R cs else [])"

definition digits_to_int :: "nat \<Rightarrow> nat list \<Rightarrow> int" where
  "digits_to_int R ds = foldl (\<lambda>acc d. acc * int R + int d) 0 ds"

text \<open>\<open>ToInt32\<close> of a radix argument; \<open>NaN\<close> and a missing argument give \<open>0\<close>.\<close>

definition toInt32 :: "number \<Rightarrow> int" where
  "toInt32 v = (case v of NaN \<Rightarrow> 0 | Num n \<Rightarrow> (n + 2 ^ 31) mod 2 ^ 32 - 2 ^ 31)"

text \<open>
  \<open>parseInt(string, radix)\<close> as ECMAScript defines it: leading white space is dropped, a
  sign is read, the radix is checked (\<open>0\<close> means ten, or sixteen after a \<open>0x\<close> prefix),
  and the longest prefix of digits is the value; no digit at all gives \<open>NaN\<close>. The call
  with one argument is \<open>parseInt string NaN\<close>.
\<close>

definition parseInt :: "string \<Rightarrow> number \<Rightarrow> number" where
  "parseInt inputString radix =
     (let S0 = dropWhile is_space inputString;
          sign = (if S0 \<noteq> [] \<and> hd S0 = CHR ''-'' then - 1 else (1 :: int));
          S1 = (if S0 \<noteq> [] \<and> (hd S0 = CHR ''+'' \<or> hd S0 = CHR ''-'') then tl S0 else S0);
          R0 = toInt32 radix
      in if R0 \<noteq> 0 \<and> (R0 < 2 \<or> 36 < R0) then NaN
         else
           (let stripPrefix = (R0 = 0 \<or> R0 = 16);
                R1 = (if R0 = 0 then 10 else R0);
                hex = (stripPrefix \<and> (take 2 S1 = ''0x'' \<or> take 2 S1 = ''0X''));
                S2 = (if hex then drop 2 S1 else S1);
                R = (if hex then 16 else R1);
                Z = radix_prefix (nat R) S2
            in if Z = [] then NaN else Num (sign * digits_to_int (nat R) Z)))"

text \<open>\<open>BigInt(v)\<close> of a Number: \<open>BigInt(NaN)\<close> raises a RangeError.\<close>

definition BigInt_of_number :: "number \<Rightarrow> error + int" where
  "BigInt_of_number v = (case v of NaN \<Rightarrow> Inl RangeError | Num n \<Rightarrow> Inr n)"

text \<open>
  \<open>BigInt(v)\<close> of a string (\<open>StringToBigInt\<close>): white space is trimmed at both ends; the
  empty string is \<open>0n\<close>; a \<open>0x\<close>, \<open>0o\<close> or \<open>0b\<close> prefix selects radix 16, 8 or 2 and
  allows no sign; otherwise an optional sign and decimal digits. Anything else raises a
  SyntaxError. \<open>BigInt\<close> takes one argument: a second one is ignored.
\<close>

definition trim :: "string \<Rightarrow> string" where
  "trim s = rev (dropWhile is_space (rev (dropWhile is_space s)))"

definition parse_digits :: "nat \<Rightarrow> int \<Rightarrow> string \<Rightarrow> error + int" where
  "parse_digits R sign s =
     (if s \<noteq> [] \<and> length (radix_prefix R s) = length s
      then Inr (sign * digits_to_int R (radix_prefix R s))
      else Inl SyntaxError)"

definition BigInt_of_string :: "string \<Rightarrow> error + int" where
  "BigInt_of_string str =
     (let t = trim str in
      if t = [] then Inr 0
      else if take 2 t = ''0x'' \<or> take 2 t = ''0X'' then parse_digits 16 1 (drop 2 t)
      else if take 2 t = ''0o'' \<or> take 2 t = ''0O'' then parse_digits 8 1 (drop 2 t)
      else if take 2 t = ''0b'' \<or> take 2 t = ''0B'' then parse_digits 2 1 (drop 2 t)
      else if hd t = CHR ''+'' then parse_digits 10 1 (tl t)
      else if hd t = CHR ''-'' then parse_digits 10 (- 1) (tl t)
      else parse_digits 10 1 t)"

section \<open>Share decoding and the pipeline of shamir.js\<close>

text \<open>
  \<^verbatim>\<open>try { return BigInt(valueString, base); } catch (e) { throw new Error(...) }\<close>:
  the \<open>base\<close> is passed to \<open>BigInt\<close> as a second argument, which \<open>BigInt\<close> does not read.
\<close>

definition decodeYValue :: "string \<Rightarrow> number \<Rightarrow> error + int" where
  "decodeYValue valueString base =
     (case BigInt_of_string valueString of
        Inl e \<Rightarrow> Inl DecodeError
      | Inr v \<Rightarrow> Inr v)"

text \<open>
  The parsed input: the header values \<open>n\<close> and \<open>k\<close>, and the properties of the object in
  the order \<^verbatim>\<open>for (const key in inputData)\<close> visits them, each with its \<open>base\<close> and
  \<open>value\<close> (a \<open>base\<close> given as a JSON number is its decimal string). A header value is a
  number, an integer in this model, or something whose \<open>typeof\<close> is not \<open>'number'\<close>.
\<close>

datatype json_value = JNumber int | JNotNumber

record raw_share =
  entry_base :: string
  entry_value :: string

definition invalid_base :: "number \<Rightarrow> bool" where
  "invalid_base base = (case base of NaN \<Rightarrow> True | Num b \<Rightarrow> b < 2 \<or> 36 < b)"

text \<open>
  The loop of \<open>processTestCase\<close> over the properties: a share with a base out of range or
  a value that does not decode is skipped with a warning; \<open>BigInt(key)\<close> is outside the
  inner \<open>try\<close>, so a key that is no integer ends the test case.
\<close>

fun collect_shares ::
  "(string \<times> raw_share) list \<Rightarrow> share list \<times> nat \<Rightarrow> error + share list \<times> nat" where
  "collect_shares [] (sharesToReconstruct, validShareCount) =
     Inr (sharesToReconstruct, validShareCount)"
| "collect_shares ((key, yData) # rest) (sharesToReconstruct, validShareCount) =
     (if key = ''keys'' then collect_shares rest (sharesToReconstruct, validShareCount)
      else
        (case BigInt_of_string key of
           Inl e \<Rightarrow> Inl e
         | Inr x \<Rightarrow>
            (let base = parseInt (entry_base yData) NaN in
             if invalid_base base then collect_shares rest (sharesToReconstruct, validShareCount)
             else
               (case decodeYValue (entry_value yData) base of
                  Inl e \<Rightarrow> collect_shares rest (sharesToReconstruct, validShareCount)
                | Inr y \<Rightarrow>
                    collect_shares rest
                      (sharesToReconstruct @ [\<lparr>share_x = x, share_y = y\<rparr>], validShareCount + 1)))))"

text \<open>
  \<open>processTestCase\<close>: the result is the secret it logs, or the error whose message it
  logs. The shares are sorted by \<open>x\<close> (the sort is stable) and the first \<open>k\<close> are used.
\<close>

definition processTestCase ::
  "json_value \<Rightarrow> json_value \<Rightarrow> (string \<times> raw_share) list \<Rightarrow> int \<Rightarrow> error + int" where
  "processTestCase n k inputData prime =
     (case n of
        JNotNumber \<Rightarrow> Inl InvalidThreshold
      | JNumber n' \<Rightarrow>
         if n' < 1 then Inl InvalidThreshold
         else
           (case k of
              JNotNumber \<Rightarrow> Inl InvalidThreshold
            | JNumber k' \<Rightarrow>
               if k' < 2 \<or> n' < k' then Inl InvalidThreshold
               else
                 (case collect_shares inputData ([], 0) of
                    Inl e \<Rightarrow> Inl e
                  | Inr (sharesToReconstruct, validShareCount) \<Rightarrow>
                     if int validShareCount < k' then Inl InsufficientShares
                     else reconstructSecret (take (nat k') (sort_key share_x sharesToReconstruct)) prime)))"

section \<open>main.js: decoding, exact interpolation, input\<close>

text \<open>
  \<^verbatim>\<open>BigInt([...value].reduce((acc, digit) => acc * BigInt(base) + BigInt(parseInt(digit, base)), BigInt(0)))\<close>:
  a fold from the left over the characters; \<open>parseInt\<close> of a character that is no digit
  of the base is \<open>NaN\<close>, and \<open>BigInt(NaN)\<close> raises.
\<close>

fun convert_loop :: "number \<Rightarrow> string \<Rightarrow> int \<Rightarrow> error + int" where
  "convert_loop base [] acc = Inr acc"
| "convert_loop base (digit # rest) acc =
     (case BigInt_of_number base of
        Inl e \<Rightarrow> Inl e
      | Inr b \<Rightarrow>
         (case BigInt_of_number (parseInt [digit] base) of
            Inl e \<Rightarrow> Inl e
          | Inr d \<Rightarrow> convert_loop base rest (acc * b + d)))"

definition convertToDecimal :: "string \<Rightarrow> number \<Rightarrow> error + int" where
  "convertToDecimal val base = convert_loop base val 0"

text \<open>
  \<open>lagrangeInterpolationAtZero\<close>: a point is \<^verbatim>\<open>[x, y]\<close> with \<open>x\<close> a Number and \<open>y\<close> a
  BigInt. The inner loop multiplies \<open>num\<close> by \<open>-xj\<close> and \<open>den\<close> by \<open>xi - xj\<close>; each term is
  \<^verbatim>\<open>yi * num / den\<close>, a BigInt division, added to \<open>result\<close>.
\<close>

fun lagrange_inner ::
  "(number \<times> int) list \<Rightarrow> nat \<Rightarrow> int \<Rightarrow> nat list \<Rightarrow> int \<times> int \<Rightarrow> error + int \<times> int" where
  "lagrange_inner points i xi [] (num, den) = Inr (num, den)"
| "lagrange_inner points i xi (j # js) (num, den) =
     (if i \<noteq> j then
        (case BigInt_of_number (fst (points ! j)) of
           Inl e \<Rightarrow> Inl e
         | Inr xj \<Rightarrow> lagrange_inner points i xi js (num * (- xj), den * (xi - xj)))
      else lagrange_inner points i xi js (num, den))"

fun lagrange_outer :: "(number \<times> int) list \<Rightarrow> nat list \<Rightarrow> int \<Rightarrow> error + int" where
  "lagrange_outer points [] result = Inr result"
| "lagrange_outer points (i # rest) result =
     (case BigInt_of_number (fst (points ! i)) of
        Inl e \<Rightarrow> Inl e
      | Inr xi \<Rightarrow>
         (let yi = snd (points ! i) in
          case lagrange_inner points i xi [0..<length points] (1, 1) of
            Inl e \<Rightarrow> Inl e
          | Inr (num, den) \<Rightarrow>
             (case bigint_div (yi * num) den of
                Inl e \<Rightarrow> Inl e
              | Inr term1 \<Rightarrow> lagrange_outer points rest (result + term1))))"

definition lagrangeInterpolationAtZero :: "(number \<times> int) list \<Rightarrow> error + int" where
  "lagrangeInterpolationAtZero points = lagrange_outer points [0..<length points] 0"

text \<open>
  \<open>parseInput\<close>: every property but \<open>keys\<close> becomes a point; a value that does not decode
  raises, and nothing catches it. \<^verbatim>\<open>points.sort((a, b) => a[0] - b[0])\<close> is the stable
  sort by \<open>x\<close>; where an \<open>x\<close> is \<open>NaN\<close> the comparator answers \<open>NaN\<close>, which counts as
  equal, and ECMAScript leaves the order to the implementation: the model then keeps the
  order of a stable insertion sort. \<^verbatim>\<open>points.slice(0, k)\<close> counts a negative \<open>k\<close> from the
  end.
\<close>

fun parse_entries ::
  "(string \<times> raw_share) list \<Rightarrow> (number \<times> int) list \<Rightarrow> error + (number \<times> int) list" where
  "parse_entries [] points = Inr points"
| "parse_entries ((key, entry) # rest) points =
     (if key = ''keys'' then parse_entries rest points
      else
        (let x = parseInt key NaN;
             base = parseInt (entry_base entry) NaN
         in case convertToDecimal (entry_value entry) base of
              Inl e \<Rightarrow> Inl e
            | Inr y \<Rightarrow> parse_entries rest (points @ [(x, y)])))"

definition comparator_positive :: "number \<Rightarrow> number \<Rightarrow> bool" where
  "comparator_positive a b =
     (case a of NaN \<Rightarrow> False | Num m \<Rightarrow> (case b of NaN \<Rightarrow> False | Num n \<Rightarrow> n < m))"

fun insert_point :: "number \<times> int \<Rightarrow> (number \<times> int) list \<Rightarrow> (number \<times> int) list" where
  "insert_point a [] = [a]"
| "insert_point a (b # bs) =
     (if comparator_positive (fst a) (fst b) then b # insert_point a bs else a # b # bs)"

definition sort_points :: "(number \<times> int) list \<Rightarrow> (number \<times> int) list" where
  "sort_points points = foldr insert_point points []"

definition slice0 :: "int \<Rightarrow> 'a list \<Rightarrow> 'a list" where
  "slice0 k xs = (if k < 0 then take (nat (int (length xs) + k)) xs else take (nat k) xs)"

definition parseInput :: "int \<Rightarrow> (string \<times> raw_share) list \<Rightarrow> error + (number \<times> int) list" where
  "parseInput k inputData =
     (case parse_entries inputData [] of
        Inl e \<Rightarrow> Inl e
      | Inr points \<Rightarrow> Inr (slice0 k (sort_points points)))"

text \<open>The body of \<^verbatim>\<open>files.forEach\<close>: the secret main.js prints for one input.\<close>

definition main_secret :: "int \<Rightarrow> (string \<times> raw_share) list \<Rightarrow> error + int" where
  "main_secret k inputData =
     (case parseInput k inputData of
        Inl e \<Rightarrow> Inl e
      | Inr points \<Rightarrow> lagrangeInterpolationAtZero points)"

section \<open>Notions the properties are stated with\<close>

text \<open>
  A prime: greater than one, with no divisor strictly between one and itself. The
  scripts never test primality; the prime is the caller's.
\<close>

definition is_prime :: "int \<Rightarrow> bool" where
  "is_prime p \<longleftrightarrow> 1 < p \<and> (\<forall>d\<in>{2..<p}. \<not> d dvd p)"

text \<open>
  The polynomial with the coefficients \<open>cs\<close>, constant term first, at \<open>x\<close>: a secret
  \<open>poly_eval cs 0\<close> is shared as the points \<open>(x, poly_eval cs x)\<close>.
\<close>

fun poly_eval :: "int list \<Rightarrow> int \<Rightarrow> int" where
  "poly_eval [] x = 0"
| "poly_eval (c # cs) x = c + x * poly_eval cs x"

text \<open>
  The Lagrange numerator and denominator of share \<open>j\<close> over the integers, as
  \<open>reconstructSecret\<close> forms them before reduction, and the value \<open>modInverse\<close> returns
  (zero where it raises).
\<close>

definition lag_num :: "share list \<Rightarrow> nat \<Rightarrow> int" where
  "lag_num shares j = (\<Prod>m\<in>{..<length shares} - {j}. share_x (shares ! m))"

definition lag_den :: "share list \<Rightarrow> nat \<Rightarrow> int" where
  "lag_den shares j = (\<Prod>m\<in>{..<length shares} - {j}. share_x (shares ! m) - share_x (shares ! j))"

definition mod_inv_value :: "int \<Rightarrow> int \<Rightarrow> int" where
  "mod_inv_value d p = (case modInverse d p of Inl e \<Rightarrow> 0 | Inr r \<Rightarrow> r)"

text \<open>
  Real polynomial functions of degree at most \<open>n\<close>, and \<open>poly_eval\<close> read over the reals:
  the interpolation identity is proved there and carried back to the integers.
\<close>

definition polyfun_le :: "nat \<Rightarrow> (real \<Rightarrow> real) \<Rightarrow> bool" where
  "polyfun_le n f \<longleftrightarrow> (\<exists>c. \<forall>z. f z = (\<Sum>i\<le>n. c i * z ^ i))"

fun real_poly :: "int list \<Rightarrow> real \<Rightarrow> real" where
  "real_poly [] z = 0"
| "real_poly (c # cs) z = of_int c + z * real_poly cs z"

text \<open>A character that is a digit of base \<open>b\<close>: alphanumeric, with a digit value below \<open>b\<close>.\<close>

definition is_digit_of :: "int \<Rightarrow> char \<Rightarrow> bool" where
  "is_digit_of b c = (case digit_value c of None \<Rightarrow> False | Some d \<Rightarrow> int d < b)"

text \<open>
  A property of the input that survives \<open>processTestCase\<close>'s filtering: it is not the
  header, its base parses to a number in \<open>[2, 36]\<close>, and its value decodes.
\<close>

definition survives :: "string \<times> raw_share \<Rightarrow> bool" where
  "survives entry =
     (fst entry \<noteq> ''keys'' \<and>
      \<not> invalid_base (parseInt (entry_base (snd entry)) NaN) \<and>
      \<not> isl (decodeYValue (entry_value (snd entry)) (parseInt (entry_base (snd entry)) NaN)))"

text \<open>
  Reference for the exact interpolator, following the spec's words (its required
  behaviour): each term \<open>y_i * prod (- x_j) / prod (x_i - x_j)\<close>, the products over
  \<open>j \<noteq> i\<close>, is an exact rational kept as a numerator/denominator pair; the \<open>k\<close> terms are
  summed as rationals, and the total is reduced to an integer at the end. A zero
  denominator (a duplicate \<open>x\<close>) is \<open>DegenerateShares\<close>.
\<close>

definition reference_term :: "(int \<times> int) list \<Rightarrow> nat \<Rightarrow> int \<times> int" where
  "reference_term points i =
     (snd (points ! i) * (\<Prod>j\<leftarrow>filter (\<lambda>j. j \<noteq> i) [0..<length points]. - fst (points ! j)),
      (\<Prod>j\<leftarrow>filter (\<lambda>j. j \<noteq> i) [0..<length points]. fst (points ! i) - fst (points ! j)))"

definition rational_add :: "int \<times> int \<Rightarrow> int \<times> int \<Rightarrow> int \<times> int" where
  "rational_add a b = (fst a * snd b + fst b * snd a, snd a * snd b)"

definition reference_interpolateAtZero :: "(int \<times> int) list \<Rightarrow> error + int" where
  "reference_interpolateAtZero points =
     (let total = foldl rational_add (0, 1) (map (reference_term points) [0..<length points])
      in if snd total = 0 then Inl DegenerateShares else Inr (fst total sdiv snd total))"

text \<open>An integer point as main.js holds it: \<open>x\<close> a Number, \<open>y\<close> a BigInt.\<close>

definition number_point :: "int \<times> int \<Rightarrow> number \<times> int" where
  "number_point pt = (Num (fst pt), snd pt)"

section \<open>The modular helpers\<close>

lemma mod_js_zero: "mod_js n 0 = Inl RangeError"
  by (simp add: mod_js_def bigint_rem_def)

lemma smod_abs_less: "m \<noteq> 0 \<Longrightarrow> \<bar>n smod m\<bar> < \<bar>m::int\<bar>"
  by (simp add: signed_modulo_int_def abs_mult abs_sgn_eq)

lemma smod_cong_mod: "(n smod m) mod m = n mod (m::int)"
  by (simp add: signed_modulo_int_eq_modulo_int mod_simps)

lemma smod_shift:
  assumes "m \<noteq> 0"
  shows "((n smod m) + m) smod m = n mod (m::int)"
proof -
  let ?r = "n smod m"
  have b: "\<bar>?r\<bar> < \<bar>m\<bar>" using assms by (rule smod_abs_less)
  have "sgn (?r + m) = sgn m" using b assms by (auto simp: sgn_if)
  then have "(?r + m) smod m = (?r + m) mod m"
    by (simp add: signed_modulo_int_eq_modulo_int)
  also have "\<dots> = n mod m" by (simp add: smod_cong_mod)
  finally show ?thesis .
qed

lemma mod_js_eq: "m \<noteq> 0 \<Longrightarrow> mod_js n m = Inr (n mod m)"
  by (simp add: mod_js_def bigint_rem_def smod_shift)

lemma modInverse_loop_none:
  "m \<noteq> 0 \<Longrightarrow> (\<forall>y. x \<le> y \<and> y < m \<longrightarrow> (a * y) mod m \<noteq> 1) \<Longrightarrow> modInverse_loop a m x = Inl NoInverseExists"
proof (induction a m x rule: modInverse_loop.induct)
  case (1 a m x)
  show ?case
  proof (cases "x < m")
    case True
    have r: "(a * x) mod m \<noteq> 1" using 1 True by auto
    have "modInverse_loop a m (x + 1) = Inl NoInverseExists"
      using 1 True r by (auto simp: mod_js_eq)
    then show ?thesis using True r 1
      by (subst modInverse_loop.simps) (simp add: mod_js_eq)
  next
    case False
    then show ?thesis by (subst modInverse_loop.simps) simp
  qed
qed

lemma modInverse_loop_found:
  "m \<noteq> 0 \<Longrightarrow> x \<le> y \<Longrightarrow> y < m \<Longrightarrow> (a * y) mod m = 1 \<Longrightarrow>
   \<exists>r. modInverse_loop a m x = Inr r \<and> x \<le> r \<and> r \<le> y \<and> (a * r) mod m = 1"
proof (induction a m x rule: modInverse_loop.induct)
  case (1 a m x)
  have xm: "x < m" using 1 by simp
  show ?case
  proof (cases "(a * x) mod m = 1")
    case True
    then show ?thesis using xm 1
      by (subst modInverse_loop.simps) (simp add: mod_js_eq)
  next
    case False
    then have "x \<noteq> y" using 1 by auto
    then have "x + 1 \<le> y" using 1 by simp
    then have "\<exists>r. modInverse_loop a m (x + 1) = Inr r \<and> x + 1 \<le> r \<and> r \<le> y \<and> (a * r) mod m = 1"
      using 1 xm False by (auto simp: mod_js_eq)
    then show ?thesis using xm False 1
      by (subst modInverse_loop.simps) (auto simp add: mod_js_eq)
  qed
qed

section \<open>Primes and modular inverses\<close>

lemma is_prime_divisors:
  assumes "is_prime p" "g dvd p" "0 < g"
  shows "g = 1 \<or> g = p"
proof -
  have "g \<le> p" using assms by (auto simp: is_prime_def intro: zdvd_imp_le)
  then show ?thesis using assms by (auto simp: is_prime_def)
qed

lemma is_prime_coprime:
  assumes "is_prime p" "\<not> p dvd a"
  shows "coprime p a"
proof -
  have "0 < gcd p a" using assms by (auto simp: is_prime_def)
  then have "gcd p a = 1 \<or> gcd p a = p"
    using is_prime_divisors [OF assms(1), of "gcd p a"] by simp
  moreover have "gcd p a \<noteq> p" using assms(2) by (metis gcd_dvd2)
  ultimately show ?thesis by (simp add: coprime_iff_gcd_eq_1)
qed

lemma is_prime_dvd_mult:
  assumes "is_prime p" "p dvd a * b" "\<not> p dvd a"
  shows "p dvd b"
  using is_prime_coprime [OF assms(1,3)] assms(2) by (simp add: coprime_dvd_mult_right_iff)

lemma is_prime_inverse_exists:
  assumes "is_prime p" "a mod p \<noteq> 0"
  shows "\<exists>y. 1 \<le> y \<and> y < p \<and> (a * y) mod p = 1"
proof -
  have p: "1 < p" using assms by (simp add: is_prime_def)
  have "\<not> p dvd a" using assms(2) by (simp add: dvd_eq_mod_eq_0)
  then have "coprime p a" using assms(1) by (rule is_prime_coprime [rotated])
  then have "gcd a p = 1" by (simp add: coprime_iff_gcd_eq_1 gcd.commute)
  then obtain u v where uv: "u * a + v * p = 1" using bezout_int [of a p] by auto
  have "(a * (u mod p)) mod p = (u * a + v * p) mod p"
    by (simp add: mod_simps mult.commute)
  also have "\<dots> = 1" using uv p by simp
  finally have one: "(a * (u mod p)) mod p = 1" .
  have "u mod p \<noteq> 0" using one by auto
  moreover have "0 \<le> u mod p" "u mod p < p" using p by simp_all
  ultimately show ?thesis using one by (intro exI [of _ "u mod p"]) auto
qed

lemma modInverse_ok:
  assumes "is_prime p" "d mod p \<noteq> 0"
  shows "\<exists>i. modInverse d p = Inr i \<and> 1 \<le> i \<and> i < p \<and> (d * i) mod p = 1"
proof -
  have p: "p \<noteq> 0" using assms by (auto simp: is_prime_def)
  obtain y where y: "1 \<le> y" "y < p" "(d * y) mod p = 1"
    using is_prime_inverse_exists [OF assms] by blast
  have "((d mod p) * y) mod p = 1" using y by (simp add: mod_simps)
  from modInverse_loop_found [OF p y(1) y(2) this]
  obtain r where "modInverse_loop (d mod p) p 1 = Inr r" "1 \<le> r" "r \<le> y" "((d mod p) * r) mod p = 1"
    by blast
  then show ?thesis using p y by (auto simp: modInverse_def mod_js_eq mod_simps)
qed

lemma modInverse_zero:
  assumes "m \<noteq> 0" "a mod m = 0"
  shows "modInverse a m = Inl NoInverseExists"
proof -
  have "modInverse_loop 0 m 1 = Inl NoInverseExists"
    using assms(1) by (intro modInverse_loop_none) auto
  then show ?thesis using assms by (simp add: modInverse_def mod_js_eq)
qed

section \<open>The loops of reconstructSecret\<close>

lemma reconstruct_inner_degenerate:
  assumes "p \<noteq> 0" "\<exists>m\<in>set ms. m \<noteq> j \<and> (share_x (shares ! m) - xj) mod p = 0"
  shows "reconstruct_inner shares p j xj ms (num, den) = Inl DegenerateShares"
  using assms(2)
proof (induction ms arbitrary: num den)
  case Nil
  then show ?case by simp
next
  case (Cons m ms)
  show ?case
  proof (cases "m \<noteq> j \<and> (share_x (shares ! m) - xj) mod p = 0")
    case True
    then show ?thesis using assms(1) by (auto simp: mod_js_eq)
  next
    case False
    then have "\<exists>m\<in>set ms. m \<noteq> j \<and> (share_x (shares ! m) - xj) mod p = 0"
      using Cons.prems by auto
    then have "\<And>num den. reconstruct_inner shares p j xj ms (num, den) = Inl DegenerateShares"
      by (rule Cons.IH)
    then show ?thesis using assms(1) by (cases "j = m") (simp_all add: mod_js_eq Let_def)
  qed
qed

lemma reconstruct_inner_ok:
  assumes "p \<noteq> 0" "\<forall>m\<in>set ms. m \<noteq> j \<longrightarrow> (share_x (shares ! m) - xj) mod p \<noteq> 0"
  shows "\<exists>num' den'. reconstruct_inner shares p j xj ms (num, den) = Inr (num', den') \<and>
     num' mod p = (num * (\<Prod>m\<leftarrow>filter (\<lambda>m. m \<noteq> j) ms. share_x (shares ! m))) mod p \<and>
     den' mod p = (den * (\<Prod>m\<leftarrow>filter (\<lambda>m. m \<noteq> j) ms. share_x (shares ! m) - xj)) mod p"
  using assms(2)
proof (induction ms arbitrary: num den)
  case Nil
  then show ?case by simp
next
  case (Cons m ms)
  have ih: "\<exists>num' den'. reconstruct_inner shares p j xj ms (n, d) = Inr (num', den') \<and>
     num' mod p = (n * (\<Prod>m\<leftarrow>filter (\<lambda>m. m \<noteq> j) ms. share_x (shares ! m))) mod p \<and>
     den' mod p = (d * (\<Prod>m\<leftarrow>filter (\<lambda>m. m \<noteq> j) ms. share_x (shares ! m) - xj)) mod p" for n d
    using Cons.IH Cons.prems by simp
  show ?case
  proof (cases "j = m")
    case True
    then show ?thesis using ih [of num den] by simp
  next
    case False
    let ?xm = "share_x (shares ! m)"
    have nz: "(?xm - xj) mod p \<noteq> 0" using Cons.prems False by simp
    obtain num' den' where r:
      "reconstruct_inner shares p j xj ms ((num * ?xm) mod p, (den * ((?xm - xj) mod p)) mod p) = Inr (num', den')"
      "num' mod p = ((num * ?xm) mod p * (\<Prod>m\<leftarrow>filter (\<lambda>m. m \<noteq> j) ms. share_x (shares ! m))) mod p"
      "den' mod p = ((den * ((?xm - xj) mod p)) mod p * (\<Prod>m\<leftarrow>filter (\<lambda>m. m \<noteq> j) ms. share_x (shares ! m) - xj)) mod p"
      using ih by blast
    have "num' mod p = (num * (?xm * (\<Prod>m\<leftarrow>filter (\<lambda>m. m \<noteq> j) ms. share_x (shares ! m)))) mod p"
      using r(2) by (simp add: mod_simps mult.assoc)
    moreover have "den' mod p = (den * ((?xm - xj) * (\<Prod>m\<leftarrow>filter (\<lambda>m. m \<noteq> j) ms. share_x (shares ! m) - xj))) mod p"
      using r(3) by (simp add: mod_simps mult.assoc)
    ultimately show ?thesis using False nz r(1) assms(1)
      by (simp add: mod_js_eq Let_def)
  qed
qed

lemma prod_list_others:
  "(\<Prod>m\<leftarrow>filter (\<lambda>m. m \<noteq> j) [0..<k]. f m) = (\<Prod>m\<in>{..<k} - {j}. (f m :: int))"
proof -
  have "set (filter (\<lambda>m. m \<noteq> j) [0..<k]) = {..<k} - {j}" by auto
  moreover have "distinct (filter (\<lambda>m. m \<noteq> j) [0..<k])" by simp
  ultimately show ?thesis by (metis prod.distinct_set_conv_list)
qed

lemma is_prime_not_dvd_prod:
  assumes "is_prime p" "finite S" "\<forall>m\<in>S. \<not> p dvd f m"
  shows "\<not> p dvd prod f S"
  using assms(2,3)
proof (induction S rule: finite_induct)
  case empty
  then show ?case using assms(1) by (auto simp: is_prime_def)
next
  case (insert a S)
  then show ?case using is_prime_dvd_mult [OF assms(1), of "f a" "prod f S"] by auto
qed

lemma modInverse_mod: "p \<noteq> 0 \<Longrightarrow> d mod p = d' mod p \<Longrightarrow> modInverse d p = modInverse d' p"
  by (simp add: modInverse_def mod_js_eq)

lemma lag_den_nonzero:
  assumes "is_prime p"
    "\<forall>m<length shares. m \<noteq> j \<longrightarrow> share_x (shares ! m) mod p \<noteq> share_x (shares ! j) mod p"
  shows "lag_den shares j mod p \<noteq> 0"
proof -
  have "\<not> p dvd (share_x (shares ! m) - share_x (shares ! j))" if "m \<in> {..<length shares} - {j}" for m
    using that assms(2) by (auto simp: mod_eq_dvd_iff)
  then have "\<not> p dvd lag_den shares j"
    unfolding lag_den_def using assms(1) by (intro is_prime_not_dvd_prod) auto
  then show ?thesis by (simp add: dvd_eq_mod_eq_0)
qed

lemma lag_den_inverse:
  assumes "is_prime p"
    "\<forall>m<length shares. m \<noteq> j \<longrightarrow> share_x (shares ! m) mod p \<noteq> share_x (shares ! j) mod p"
  shows "modInverse (lag_den shares j) p = Inr (mod_inv_value (lag_den shares j) p)"
    and "(lag_den shares j * mod_inv_value (lag_den shares j) p) mod p = 1"
proof -
  obtain i where i: "modInverse (lag_den shares j) p = Inr i" "(lag_den shares j * i) mod p = 1"
    using modInverse_ok [OF assms(1) lag_den_nonzero [OF assms]] by blast
  then have "mod_inv_value (lag_den shares j) p = i" by (simp add: mod_inv_value_def)
  then show "modInverse (lag_den shares j) p = Inr (mod_inv_value (lag_den shares j) p)"
    and "(lag_den shares j * mod_inv_value (lag_den shares j) p) mod p = 1"
    using i by simp_all
qed

lemma reconstruct_outer_step:
  assumes "is_prime p"
    and nc: "\<forall>m<length shares. m \<noteq> j \<longrightarrow> share_x (shares ! m) mod p \<noteq> share_x (shares ! j) mod p"
  shows "\<exists>s'. reconstruct_outer shares p (j # js) s = reconstruct_outer shares p js s' \<and>
     0 \<le> s' \<and> s' < p \<and>
     s' mod p = (s + share_y (shares ! j) * mod_inv_value (lag_den shares j) p * lag_num shares j) mod p"
proof -
  have p: "p \<noteq> 0" "0 < p" using assms(1) by (auto simp: is_prime_def)
  let ?k = "length shares"
  let ?xj = "share_x (shares ! j)"
  let ?yj = "share_y (shares ! j)"
  let ?i = "mod_inv_value (lag_den shares j) p"
  have "\<forall>m\<in>set [0..<?k]. m \<noteq> j \<longrightarrow> (share_x (shares ! m) - ?xj) mod p \<noteq> 0"
    using nc by (auto simp: mod_eq_dvd_iff dvd_eq_mod_eq_0)
  from reconstruct_inner_ok [OF p(1) this, of 1 1]
  obtain num' den' where inner:
    "reconstruct_inner shares p j ?xj [0..<?k] (1, 1) = Inr (num', den')"
    "num' mod p = lag_num shares j mod p"
    "den' mod p = lag_den shares j mod p"
    by (auto simp: prod_list_others lag_num_def lag_den_def)
  have inv': "modInverse den' p = Inr ?i"
    using modInverse_mod [OF p(1) inner(3)] lag_den_inverse(1) [OF assms] by simp
  let ?s' = "(s + ((?yj * ?i) mod p * num') mod p) mod p"
  have step: "reconstruct_outer shares p (j # js) s = reconstruct_outer shares p js ?s'"
    using inner(1) inv' p(1) by (simp add: mod_js_eq Let_def)
  have "(?yj * ?i * num') mod p = (?yj * ?i * lag_num shares j) mod p"
    using inner(2) by (metis mod_mult_right_eq)
  then have s': "?s' mod p = (s + ?yj * ?i * lag_num shares j) mod p"
    by (simp add: mod_simps)
  show ?thesis using step s' p(2) by (intro exI [of _ ?s']) simp
qed

lemma reconstruct_outer_ok:
  assumes "is_prime p"
    and nc: "\<forall>i<length shares. \<forall>j<length shares. i \<noteq> j \<longrightarrow> share_x (shares ! i) mod p \<noteq> share_x (shares ! j) mod p"
    and "set js \<subseteq> {..<length shares}"
  shows "\<exists>v. reconstruct_outer shares p js s = Inr v \<and>
     v mod p = (s + (\<Sum>j\<leftarrow>js. share_y (shares ! j) * mod_inv_value (lag_den shares j) p * lag_num shares j)) mod p \<and>
     (js \<noteq> [] \<longrightarrow> 0 \<le> v \<and> v < p)"
  using assms(3)
proof (induction js arbitrary: s)
  case Nil
  then show ?case by simp
next
  case (Cons j js)
  let ?t = "\<lambda>j. share_y (shares ! j) * mod_inv_value (lag_den shares j) p * lag_num shares j"
  have j: "j < length shares" using Cons.prems by simp
  then have "\<forall>m<length shares. m \<noteq> j \<longrightarrow> share_x (shares ! m) mod p \<noteq> share_x (shares ! j) mod p"
    using nc by simp
  from reconstruct_outer_step [OF assms(1) this, of js s]
  obtain s' where s': "reconstruct_outer shares p (j # js) s = reconstruct_outer shares p js s'"
    "0 \<le> s'" "s' < p" "s' mod p = (s + ?t j) mod p"
    by blast
  have "set js \<subseteq> {..<length shares}" using Cons.prems by simp
  from Cons.IH [OF this, of s']
  obtain v where v: "reconstruct_outer shares p js s' = Inr v"
    "v mod p = (s' + (\<Sum>j\<leftarrow>js. ?t j)) mod p"
    "js \<noteq> [] \<longrightarrow> 0 \<le> v \<and> v < p"
    by blast
  have "v mod p = (s + (\<Sum>j\<leftarrow>j # js. ?t j)) mod p"
    using v(2) s'(4) by (simp add: add.assoc) (metis mod_add_left_eq add.assoc)
  moreover have "0 \<le> v \<and> v < p"
    using v(1,3) s'(2,3) by (cases "js = []") simp_all
  ultimately show ?case using s'(1) v(1) by simp
qed

lemma reconstruct_outer_degenerate:
  assumes "is_prime p"
    and "set js \<subseteq> {..<length shares}"
    and "\<exists>j\<in>set js. \<exists>m<length shares. m \<noteq> j \<and> share_x (shares ! m) mod p = share_x (shares ! j) mod p"
  shows "reconstruct_outer shares p js s = Inl DegenerateShares"
  using assms(2,3)
proof (induction js arbitrary: s)
  case Nil
  then show ?case by simp
next
  case (Cons j js)
  have p: "p \<noteq> 0" using assms(1) by (auto simp: is_prime_def)
  show ?case
  proof (cases "\<exists>m<length shares. m \<noteq> j \<and> share_x (shares ! m) mod p = share_x (shares ! j) mod p")
    case True
    then have "\<exists>m\<in>set [0..<length shares]. m \<noteq> j \<and> (share_x (shares ! m) - share_x (shares ! j)) mod p = 0"
      by (auto simp: mod_eq_dvd_iff dvd_eq_mod_eq_0)
    from reconstruct_inner_degenerate [OF p this]
    show ?thesis by (simp add: Let_def)
  next
    case False
    then have "\<forall>m<length shares. m \<noteq> j \<longrightarrow> share_x (shares ! m) mod p \<noteq> share_x (shares ! j) mod p"
      by blast
    from reconstruct_outer_step [OF assms(1) this, of js s]
    obtain s' where s': "reconstruct_outer shares p (j # js) s = reconstruct_outer shares p js s'"
      by blast
    have "reconstruct_outer shares p js s' = Inl DegenerateShares"
      using Cons.prems False by (intro Cons.IH) auto
    then show ?thesis using s' by simp
  qed
qed

lemma reconstruct_outer_range:
  assumes "0 < m" "reconstruct_outer shares m js s = Inr v" "js \<noteq> []"
  shows "0 \<le> v \<and> v < m"
  using assms(2,3)
proof (induction js arbitrary: s)
  case Nil
  then show ?case by simp
next
  case (Cons j js)
  have m: "m \<noteq> 0" using assms(1) by simp
  from Cons.prems(1) obtain s' where s': "reconstruct_outer shares m js (s' mod m) = Inr v"
    by (auto simp: mod_js_eq [OF m] Let_def split: sum.splits prod.splits)
  show ?case
  proof (cases "js = []")
    case True
    then have "v = s' mod m" using s' by simp
    then show ?thesis using assms(1) by simp
  next
    case False
    then show ?thesis using Cons.IH s' by blast
  qed
qed

section \<open>Lagrange interpolation over the reals\<close>

lemma polyfun_le_Suc:
  assumes "polyfun_le n f"
  shows "polyfun_le (Suc n) f"
proof -
  obtain c where c: "\<And>z. f z = (\<Sum>i\<le>n. c i * z ^ i)" using assms by (auto simp: polyfun_le_def)
  have "\<forall>z. f z = (\<Sum>i\<le>Suc n. (if i \<le> n then c i else 0) * z ^ i)"
    by (simp add: c)
  then show ?thesis unfolding polyfun_le_def by (rule exI [of _ "\<lambda>i. if i \<le> n then c i else 0"])
qed

lemma polyfun_le_mono: "polyfun_le n f \<Longrightarrow> n \<le> m \<Longrightarrow> polyfun_le m f"
  by (induction m) (auto simp: le_Suc_eq polyfun_le_Suc)

lemma polyfun_le_const: "polyfun_le 0 (\<lambda>z. a)"
  unfolding polyfun_le_def by (intro exI [of _ "\<lambda>i. a"]) simp

lemma polyfun_le_add:
  assumes "polyfun_le n f" "polyfun_le n g"
  shows "polyfun_le n (\<lambda>z. f z + g z)"
proof -
  obtain c where c: "\<And>z. f z = (\<Sum>i\<le>n. c i * z ^ i)" using assms(1) by (auto simp: polyfun_le_def)
  obtain d where d: "\<And>z. g z = (\<Sum>i\<le>n. d i * z ^ i)" using assms(2) by (auto simp: polyfun_le_def)
  have "\<forall>z. f z + g z = (\<Sum>i\<le>n. (c i + d i) * z ^ i)"
    by (simp add: c d sum.distrib distrib_right)
  then show ?thesis unfolding polyfun_le_def by (rule exI [of _ "\<lambda>i. c i + d i"])
qed

lemma polyfun_le_scale:
  assumes "polyfun_le n f"
  shows "polyfun_le n (\<lambda>z. a * f z)"
proof -
  obtain c where c: "\<And>z. f z = (\<Sum>i\<le>n. c i * z ^ i)" using assms(1) by (auto simp: polyfun_le_def)
  have "\<forall>z. a * f z = (\<Sum>i\<le>n. (a * c i) * z ^ i)"
    by (simp add: c sum_distrib_left mult.assoc)
  then show ?thesis unfolding polyfun_le_def by (rule exI [of _ "\<lambda>i. a * c i"])
qed

lemma polyfun_le_times_var:
  assumes "polyfun_le n f"
  shows "polyfun_le (Suc n) (\<lambda>z. z * f z)"
proof -
  obtain c where c: "\<And>z. f z = (\<Sum>i\<le>n. c i * z ^ i)" using assms(1) by (auto simp: polyfun_le_def)
  have "z * f z = (\<Sum>i\<le>Suc n. (if i = 0 then 0 else c (i - 1)) * z ^ i)" for z
  proof -
    have "(\<Sum>i\<le>Suc n. (if i = 0 then 0 else c (i - 1)) * z ^ i) = (\<Sum>i\<le>n. c i * z ^ Suc i)"
      by (subst sum.atMost_Suc_shift) simp
    also have "\<dots> = z * f z" by (simp add: c sum_distrib_left mult.assoc mult.left_commute)
    finally show ?thesis by simp
  qed
  then have "\<forall>z. z * f z = (\<Sum>i\<le>Suc n. (if i = 0 then 0 else c (i - 1)) * z ^ i)"
    by blast
  then show ?thesis unfolding polyfun_le_def by (rule exI [of _ "\<lambda>i. if i = 0 then 0 else c (i - 1)"])
qed

lemma polyfun_le_linear:
  assumes "polyfun_le n f"
  shows "polyfun_le (Suc n) (\<lambda>z. (z - a) * f z)"
proof -
  have "polyfun_le (Suc n) (\<lambda>z. z * f z + (- a) * f z)"
    by (intro polyfun_le_add polyfun_le_times_var polyfun_le_Suc polyfun_le_scale assms)
  moreover have "(\<lambda>z. z * f z + (- a) * f z) = (\<lambda>z. (z - a) * f z)"
    by (auto simp: algebra_simps)
  ultimately show ?thesis by simp
qed

lemma polyfun_le_prod:
  assumes "finite S"
  shows "polyfun_le (card S) (\<lambda>z. \<Prod>m\<in>S. (z - x m))"
  using assms
proof (induction S rule: finite_induct)
  case empty
  then show ?case using polyfun_le_const [of 1] by simp
next
  case (insert a S)
  then show ?case using polyfun_le_linear [OF insert.IH, of "x a"] by simp
qed

lemma polyfun_le_sum:
  assumes "finite S" "\<forall>j\<in>S. polyfun_le n (g j)"
  shows "polyfun_le n (\<lambda>z. \<Sum>j\<in>S. g j z)"
  using assms
proof (induction S rule: finite_induct)
  case empty
  then show ?case using polyfun_le_mono [OF polyfun_le_const [of 0], of n] by simp
next
  case (insert a S)
  then show ?case using polyfun_le_add [of n "g a" "\<lambda>z. \<Sum>j\<in>S. g j z"] by simp
qed

lemma polyfun_le_zero:
  assumes "polyfun_le n f" "finite R" "n < card R" "\<forall>r\<in>R. f r = 0"
  shows "f z = 0"
proof -
  obtain c where c: "\<And>z. f z = (\<Sum>i\<le>n. c i * z ^ i)" using assms(1) by (auto simp: polyfun_le_def)
  have "c k = 0" if "k \<le> n" for k
  proof (rule ccontr)
    assume "c k \<noteq> 0"
    from polyfun_rootbound [of c k n] this that
    have fin: "finite {z. (\<Sum>i\<le>n. c i * z ^ i) = 0}" and le: "card {z. (\<Sum>i\<le>n. c i * z ^ i) = 0} \<le> n"
      by auto
    have "R \<subseteq> {z. (\<Sum>i\<le>n. c i * z ^ i) = 0}" using assms(4) c by auto
    then have "card R \<le> card {z. (\<Sum>i\<le>n. c i * z ^ i) = 0}" using fin by (rule card_mono [rotated])
    then show False using le assms(3) by simp
  qed
  then show ?thesis by (simp add: c)
qed

lemma lagrange_basis_at_node:
  fixes x :: "nat \<Rightarrow> real"
  assumes "inj_on x {..<k}" "i < k" "j < k"
  shows "(\<Prod>m\<in>{..<k} - {j}. (x i - x m) / (x j - x m)) = (if i = j then 1 else 0)"
proof (cases "i = j")
  case True
  have "(x j - x m) / (x j - x m) = 1" if "m \<in> {..<k} - {j}" for m
    using that assms(1,3) by (auto simp: inj_on_def)
  then show ?thesis using True by simp
next
  case False
  then have "i \<in> {..<k} - {j}" using assms(2) by simp
  moreover have "(x i - x i) / (x j - x i) = 0" by simp
  ultimately have "(\<Prod>m\<in>{..<k} - {j}. (x i - x m) / (x j - x m)) = 0"
    by (intro prod_zero) auto
  then show ?thesis using False by simp
qed

lemma lagrange_interpolation:
  fixes x :: "nat \<Rightarrow> real"
  assumes "inj_on x {..<k}" "polyfun_le n f" "n < k"
  shows "(\<Sum>j<k. f (x j) * (\<Prod>m\<in>{..<k} - {j}. (z - x m) / (x j - x m))) = f z"
proof -
  let ?Q = "\<lambda>z. \<Sum>j\<in>{..<k}. (f (x j) / (\<Prod>m\<in>{..<k} - {j}. x j - x m)) * (\<Prod>m\<in>{..<k} - {j}. z - x m)"
  have Q: "(\<Sum>j<k. f (x j) * (\<Prod>m\<in>{..<k} - {j}. (z - x m) / (x j - x m))) = ?Q z" for z
    by (simp add: prod_dividef)
  have "polyfun_le (k - 1) (\<lambda>z. (f (x j) / (\<Prod>m\<in>{..<k} - {j}. x j - x m)) * (\<Prod>m\<in>{..<k} - {j}. z - x m))"
    if "j \<in> {..<k}" for j
  proof -
    have cd: "card ({..<k} - {j}) = k - 1" using that by simp
    have "finite ({..<k} - {j})" by simp
    then have "polyfun_le (card ({..<k} - {j})) (\<lambda>z. \<Prod>m\<in>{..<k} - {j}. z - x m)"
      by (rule polyfun_le_prod)
    then have "polyfun_le (k - 1) (\<lambda>z. \<Prod>m\<in>{..<k} - {j}. z - x m)"
      by (simp only: cd)
    then show ?thesis by (rule polyfun_le_scale)
  qed
  then have pQ: "polyfun_le (k - 1) ?Q" by (intro polyfun_le_sum) auto
  have "n \<le> k - 1" using assms(3) by simp
  with assms(2) have pf: "polyfun_le (k - 1) f" by (rule polyfun_le_mono)
  have pg: "polyfun_le (k - 1) (\<lambda>z. f z + (- 1) * ?Q z)"
    by (intro polyfun_le_add pf polyfun_le_scale pQ)
  have node: "?Q (x i) = f (x i)" if "i < k" for i
  proof -
    have "?Q (x i) = (\<Sum>j<k. f (x j) * (\<Prod>m\<in>{..<k} - {j}. (x i - x m) / (x j - x m)))"
      by (rule Q [symmetric])
    also have "\<dots> = (\<Sum>j\<in>{..<k}. if i = j then f (x j) else 0)"
      using lagrange_basis_at_node [OF assms(1) that] by (intro sum.cong) auto
    also have "\<dots> = f (x i)" using that by (simp add: sum.delta')
    finally show ?thesis .
  qed
  have "f z + (- 1) * ?Q z = 0"
  proof (rule polyfun_le_zero [OF pg, of "x ` {..<k}"])
    show "finite (x ` {..<k})" by simp
    show "k - 1 < card (x ` {..<k})" using assms(1,3) by (simp add: card_image)
    show "\<forall>r\<in>x ` {..<k}. f r + - 1 * ?Q r = 0" using node by auto
  qed
  then show ?thesis by (simp add: Q)
qed

section \<open>From the reals to the integers and to the field\<close>

lemma real_poly_of_int: "real_poly cs (of_int x) = of_int (poly_eval cs x)"
  by (induction cs) simp_all

lemma polyfun_le_real_poly: "polyfun_le (length cs - 1) (real_poly cs)"
proof (induction cs)
  case Nil
  have "real_poly [] = (\<lambda>z. 0)" by auto
  then show ?case using polyfun_le_const [of 0] by simp
next
  case (Cons c cs)
  have eq: "real_poly (c # cs) = (\<lambda>z. of_int c + z * real_poly cs z)" by auto
  have c: "polyfun_le (length cs) (\<lambda>z. of_int c)"
    using polyfun_le_mono [OF polyfun_le_const, of "length cs"] by simp
  have "polyfun_le (length cs) (\<lambda>z. z * real_poly cs z)"
  proof (cases cs)
    case Nil
    then have "(\<lambda>z. z * real_poly cs z) = (\<lambda>z. 0)" by auto
    then show ?thesis using polyfun_le_mono [OF polyfun_le_const [of 0], of "length cs"] by simp
  next
    case (Cons d ds)
    then have "Suc (length cs - 1) = length cs" by simp
    then show ?thesis using polyfun_le_times_var [OF Cons.IH] by simp
  qed
  with c have "polyfun_le (length cs) (\<lambda>z. of_int c + z * real_poly cs z)"
    by (rule polyfun_le_add)
  then show ?case by (simp add: eq)
qed

lemma lagrange_at_zero_int:
  fixes X :: "nat \<Rightarrow> int"
  assumes inj: "inj_on X {..<k}" and len: "length cs \<le> k" and k: "0 < k"
  shows "(\<Sum>j<k. poly_eval cs (X j) * (\<Prod>m\<in>{..<k} - {j}. X m) * (\<Prod>l\<in>{..<k} - {j}. \<Prod>m\<in>{..<k} - {l}. X m - X l))
       = poly_eval cs 0 * (\<Prod>l<k. \<Prod>m\<in>{..<k} - {l}. X m - X l)"
proof -
  let ?N = "\<lambda>j. \<Prod>m\<in>{..<k} - {j}. X m"
  let ?D = "\<lambda>j. \<Prod>m\<in>{..<k} - {j}. X m - X j"
  let ?E = "\<lambda>j. \<Prod>l\<in>{..<k} - {j}. ?D l"
  let ?x = "\<lambda>j. real_of_int (X j)"
  have injr: "inj_on ?x {..<k}" using inj by (auto simp: inj_on_def)
  have deg: "length cs - 1 < k" using len k by simp
  have Dnz: "?D j \<noteq> 0" if "j < k" for j
    using that inj by (auto simp: inj_on_def)
  have split: "(\<Prod>l<k. ?D l) = ?D j * ?E j" if "j < k" for j
    using that by (subst prod.remove [of _ j]) auto
  have basis: "(\<Prod>m\<in>{..<k} - {j}. (0 - ?x m) / (?x j - ?x m)) = of_int (?N j) / of_int (?D j)" for j
  proof -
    have "(0 - ?x m) / (?x j - ?x m) = ?x m / (?x m - ?x j)" for m
      by (metis diff_0 minus_diff_eq minus_divide_divide)
    then show ?thesis by (simp add: prod_dividef)
  qed
  have "(\<Sum>j<k. real_poly cs (?x j) * (\<Prod>m\<in>{..<k} - {j}. (0 - ?x m) / (?x j - ?x m))) = real_poly cs 0"
    using injr polyfun_le_real_poly deg by (rule lagrange_interpolation)
  then have r: "(\<Sum>j<k. of_int (poly_eval cs (X j)) * (of_int (?N j) / of_int (?D j))) = real_of_int (poly_eval cs 0)"
    using real_poly_of_int [of cs 0] by (simp only: basis real_poly_of_int of_int_0)
  have "real_of_int (\<Sum>j<k. poly_eval cs (X j) * ?N j * ?E j)
      = (\<Sum>j<k. of_int (poly_eval cs (X j)) * (of_int (?N j) / of_int (?D j)) * of_int (\<Prod>l<k. ?D l))"
    unfolding of_int_sum
  proof (rule sum.cong [OF refl])
    fix j assume "j \<in> {..<k}"
    then have j: "j < k" by simp
    have "real_of_int (?D j) \<noteq> 0" using Dnz [OF j] by simp
    then show "real_of_int (poly_eval cs (X j) * ?N j * ?E j)
       = of_int (poly_eval cs (X j)) * (of_int (?N j) / of_int (?D j)) * of_int (\<Prod>l<k. ?D l)"
      by (simp add: split [OF j])
  qed
  also have "\<dots> = real_of_int (poly_eval cs 0) * of_int (\<Prod>l<k. ?D l)"
    by (simp only: sum_distrib_right [symmetric] r)
  finally have "real_of_int (\<Sum>j<k. poly_eval cs (X j) * ?N j * ?E j) = real_of_int (poly_eval cs 0 * (\<Prod>l<k. ?D l))"
    by simp
  then show ?thesis by (simp only: of_int_eq_iff)
qed

lemma sum_mod_cong:
  assumes "\<forall>j\<in>S. a j mod p = b j mod (p::int)"
  shows "sum a S mod p = sum b S mod p"
proof -
  have "sum a S mod p = (\<Sum>j\<in>S. a j mod p) mod p" by (simp add: mod_sum_eq)
  also have "(\<Sum>j\<in>S. a j mod p) = (\<Sum>j\<in>S. b j mod p)" using assms by (intro sum.cong) auto
  also have "\<dots> mod p = sum b S mod p" by (simp add: mod_sum_eq)
  finally show ?thesis .
qed

lemma reconstructSecret_interpolates:
  assumes pr: "is_prime p"
    and ne: "shares \<noteq> []"
    and len: "length cs \<le> length shares"
    and nc: "\<forall>i<length shares. \<forall>j<length shares. i \<noteq> j \<longrightarrow>
               share_x (shares ! i) mod p \<noteq> share_x (shares ! j) mod p"
    and ys: "\<forall>j<length shares. share_y (shares ! j) mod p = poly_eval cs (share_x (shares ! j)) mod p"
  shows "reconstructSecret shares p = Inr (poly_eval cs 0 mod p)"
proof -
  let ?k = "length shares"
  let ?X = "\<lambda>m. share_x (shares ! m)"
  let ?Y = "\<lambda>m. share_y (shares ! m)"
  let ?I = "\<lambda>j. mod_inv_value (lag_den shares j) p"
  let ?E = "\<lambda>j. \<Prod>l\<in>{..<?k} - {j}. lag_den shares l"
  let ?Dall = "\<Prod>l<?k. lag_den shares l"
  let ?T = "\<Sum>j<?k. ?Y j * ?I j * lag_num shares j"
  have k: "0 < ?k" using ne by simp
  have p: "0 < p" using pr by (simp add: is_prime_def)
  have ncj: "\<forall>m<?k. m \<noteq> j \<longrightarrow> ?X m mod p \<noteq> ?X j mod p" if "j < ?k" for j
    using nc that by simp
  have sub: "set [0..<?k] \<subseteq> {..<?k}" by auto
  from reconstruct_outer_ok [OF pr nc sub, of 0]
  obtain v where v: "reconstruct_outer shares p [0..<?k] 0 = Inr v"
    "v mod p = (\<Sum>j\<leftarrow>[0..<?k]. ?Y j * ?I j * lag_num shares j) mod p"
    "0 \<le> v" "v < p"
    using k by auto
  have vT: "v mod p = ?T mod p"
    using v(2) by (simp add: interv_sum_list_conv_sum_set_nat atLeast0LessThan)
  have inj: "inj_on ?X {..<?k}"
    using nc by (auto simp: inj_on_def) metis
  have split: "?Dall = lag_den shares j * ?E j" if "j < ?k" for j
    using that by (subst prod.remove [of _ j]) auto
  have tm: "(?Dall * (?Y j * ?I j * lag_num shares j)) mod p
      = (poly_eval cs (?X j) * lag_num shares j * ?E j) mod p" if "j \<in> {..<?k}" for j
  proof -
    have j: "j < ?k" using that by simp
    have one: "(lag_den shares j * ?I j) mod p = 1"
      using lag_den_inverse(2) [OF pr ncj [OF j]] .
    have "?Dall * (?Y j * ?I j * lag_num shares j)
        = (?Y j * (lag_num shares j * ?E j)) * (lag_den shares j * ?I j)"
      by (simp add: split [OF j] algebra_simps)
    also have "\<dots> mod p = ((?Y j * (lag_num shares j * ?E j)) * ((lag_den shares j * ?I j) mod p)) mod p"
      by (simp add: mod_simps)
    also have "\<dots> = (?Y j mod p * (lag_num shares j * ?E j)) mod p"
      by (simp add: one mod_simps)
    also have "\<dots> = (poly_eval cs (?X j) mod p * (lag_num shares j * ?E j)) mod p"
      using ys j by simp
    also have "\<dots> = (poly_eval cs (?X j) * lag_num shares j * ?E j) mod p"
      by (simp add: mod_simps mult.assoc)
    finally show ?thesis .
  qed
  have "(?Dall * ?T) mod p = (\<Sum>j<?k. ?Dall * (?Y j * ?I j * lag_num shares j)) mod p"
    by (simp add: sum_distrib_left)
  also have "\<dots> = (\<Sum>j<?k. poly_eval cs (?X j) * lag_num shares j * ?E j) mod p"
    using tm by (intro sum_mod_cong) blast
  also have "(\<Sum>j<?k. poly_eval cs (?X j) * lag_num shares j * ?E j) = poly_eval cs 0 * ?Dall"
    using lagrange_at_zero_int [OF inj len k] by (simp only: lag_num_def lag_den_def)
  finally have "(?Dall * ?T) mod p = (?Dall * poly_eval cs 0) mod p"
    by (simp add: mult.commute)
  then have "p dvd ?Dall * (?T - poly_eval cs 0)"
    by (simp add: mod_eq_dvd_iff right_diff_distrib)
  moreover have "\<not> p dvd ?Dall"
  proof (rule is_prime_not_dvd_prod [OF pr])
    show "finite {..<?k}" by simp
    show "\<forall>m\<in>{..<?k}. \<not> p dvd lag_den shares m"
      using lag_den_nonzero [OF pr ncj] by (auto simp: dvd_eq_mod_eq_0)
  qed
  ultimately have "p dvd ?T - poly_eval cs 0"
    using is_prime_dvd_mult [OF pr] by blast
  then have "?T mod p = poly_eval cs 0 mod p" by (simp add: mod_eq_dvd_iff)
  then have "v = poly_eval cs 0 mod p" using vT v(3,4) by simp
  then show ?thesis using v(1) ne by (simp add: reconstructSecret_def)
qed

section \<open>Properties of the finite-field reconstruction\<close>

text \<open>
  C1. Take a prime \<open>p\<close>, a polynomial with \<open>k\<close> integer coefficients at most (degree at
  most \<open>k - 1\<close>), and \<open>k \<ge> 1\<close> x-coordinates that are pairwise distinct modulo \<open>p\<close>. From the
  shares \<open>(x, P(x) mod p)\<close>, \<open>reconstructSecret\<close> returns \<open>P(0) mod p\<close>. The coefficients
  need not lie in \<open>[0, p)\<close> and the x-coordinates need not be nonzero modulo \<open>p\<close>.
\<close>

theorem reconstructSecret_recovers_constant_term:
  assumes "is_prime p" "xs \<noteq> []" "length cs \<le> length xs"
    and "distinct (map (\<lambda>x. x mod p) xs)"
  shows "reconstructSecret (map (\<lambda>x. \<lparr>share_x = x, share_y = poly_eval cs x mod p\<rparr>) xs) p
           = Inr (poly_eval cs 0 mod p)"
proof (rule reconstructSecret_interpolates [OF assms(1)])
  let ?S = "map (\<lambda>x. \<lparr>share_x = x, share_y = poly_eval cs x mod p\<rparr>) xs"
  show "?S \<noteq> []" using assms(2) by simp
  show "length cs \<le> length ?S" using assms(3) by simp
  show "\<forall>i<length ?S. \<forall>j<length ?S. i \<noteq> j \<longrightarrow> share_x (?S ! i) mod p \<noteq> share_x (?S ! j) mod p"
    using assms(4) by (auto simp: distinct_conv_nth)
  show "\<forall>j<length ?S. share_y (?S ! j) mod p = poly_eval cs (share_x (?S ! j)) mod p"
    by simp
qed

theorem reconstructSecret_recovers_constant_term_witness:
  "is_prime 7 \<and> [1, 2, 4 :: int] \<noteq> [] \<and> length [3, 2, 5 :: int] \<le> length [1, 2, 4 :: int] \<and>
   distinct (map (\<lambda>x. x mod 7) [1, 2, 4 :: int]) \<and>
   reconstructSecret
     [\<lparr>share_x = 1, share_y = 3\<rparr>, \<lparr>share_x = 2, share_y = 6\<rparr>, \<lparr>share_x = 4, share_y = 0\<rparr>] 7 = Inr 3"
proof -
  have p: "is_prime 7" by code_simp
  have d: "distinct (map (\<lambda>x. x mod 7) [1, 2, 4 :: int])" by simp
  have "reconstructSecret (map (\<lambda>x. \<lparr>share_x = x, share_y = poly_eval [3, 2, 5] x mod 7\<rparr>) [1, 2, 4]) 7
      = Inr (poly_eval [3, 2, 5] 0 mod 7)"
    using p d by (intro reconstructSecret_recovers_constant_term) simp_all
  then show ?thesis using p d by simp
qed

text \<open>
  C6. For a prime \<open>p\<close> and at least two shares, \<open>reconstructSecret\<close> fails with
  \<open>DegenerateShares\<close> exactly when two shares at different positions have x-coordinates
  congruent modulo \<open>p\<close> (equal x-coordinates among them); when no two do, it returns a value.
\<close>

theorem reconstructSecret_degenerate_iff:
  assumes "is_prime p" "2 \<le> length shares"
  shows "(reconstructSecret shares p = Inl DegenerateShares \<longleftrightarrow>
            (\<exists>i<length shares. \<exists>j<length shares. i \<noteq> j \<and>
               share_x (shares ! i) mod p = share_x (shares ! j) mod p)) \<and>
         ((\<forall>i<length shares. \<forall>j<length shares. i \<noteq> j \<longrightarrow>
               share_x (shares ! i) mod p \<noteq> share_x (shares ! j) mod p) \<longrightarrow>
            (\<exists>v. reconstructSecret shares p = Inr v))"
proof -
  let ?coll = "\<exists>i<length shares. \<exists>j<length shares. i \<noteq> j \<and>
               share_x (shares ! i) mod p = share_x (shares ! j) mod p"
  have ne: "length shares \<noteq> 0" using assms(2) by auto
  have sub: "set [0..<length shares] \<subseteq> {..<length shares}" by auto
  have a: "reconstructSecret shares p = Inl DegenerateShares" if ?coll
  proof -
    from that have "\<exists>j\<in>set [0..<length shares]. \<exists>m<length shares. m \<noteq> j \<and>
        share_x (shares ! m) mod p = share_x (shares ! j) mod p"
      by auto
    from reconstruct_outer_degenerate [OF assms(1) sub this]
    show ?thesis using ne by (simp add: reconstructSecret_def)
  qed
  have b: "\<exists>v. reconstructSecret shares p = Inr v" if "\<not> ?coll"
  proof -
    from that have "\<forall>i<length shares. \<forall>j<length shares. i \<noteq> j \<longrightarrow>
        share_x (shares ! i) mod p \<noteq> share_x (shares ! j) mod p"
      by blast
    from reconstruct_outer_ok [OF assms(1) this sub, of 0]
    show ?thesis using ne by (auto simp: reconstructSecret_def)
  qed
  show ?thesis using a b by (metis sum.distinct(1))
qed

theorem reconstructSecret_degenerate_iff_witness:
  "is_prime 7 \<and>
   reconstructSecret [\<lparr>share_x = 1, share_y = 3\<rparr>, \<lparr>share_x = 8, share_y = 5\<rparr>] 7 = Inl DegenerateShares \<and>
   (\<exists>v. reconstructSecret [\<lparr>share_x = 1, share_y = 3\<rparr>, \<lparr>share_x = 2, share_y = 5\<rparr>] 7 = Inr v)"
proof -
  let ?S = "[\<lparr>share_x = 1, share_y = 3\<rparr>, \<lparr>share_x = 8, share_y = 5\<rparr>]"
  let ?T = "[\<lparr>share_x = 1, share_y = 3\<rparr>, \<lparr>share_x = 2, share_y = 5\<rparr>]"
  have p: "is_prime 7" by code_simp
  have "0 < length ?S \<and> (\<exists>j<length ?S. 0 \<noteq> j \<and> share_x (?S ! 0) mod 7 = share_x (?S ! j) mod 7)"
    by (intro conjI exI [of _ 1]) simp_all
  then have c: "\<exists>i<length ?S. \<exists>j<length ?S. i \<noteq> j \<and> share_x (?S ! i) mod 7 = share_x (?S ! j) mod 7"
    by blast
  have "\<forall>i<length ?T. \<forall>j<length ?T. i \<noteq> j \<longrightarrow> share_x (?T ! i) mod 7 \<noteq> share_x (?T ! j) mod 7"
    by (simp add: less_Suc_eq nth_Cons')
  then have "\<exists>v. reconstructSecret ?T 7 = Inr v"
    using reconstructSecret_degenerate_iff [OF p, of ?T] by simp
  moreover have "reconstructSecret ?S 7 = Inl DegenerateShares"
    using reconstructSecret_degenerate_iff [OF p, of ?S] c by simp
  ultimately show ?thesis using p by simp
qed

text \<open>
  C7. For a prime \<open>p\<close> and \<open>1 \<le> a < p\<close>, \<open>modInverse\<close> returns an \<open>r\<close> with
  \<open>(a * r) mod p = 1\<close>. For a modulus \<open>m\<close> other than zero and any \<open>b\<close> that is zero modulo
  \<open>m\<close>, it fails with \<open>NoInverseExists\<close>. (A modulus of zero raises a RangeError in
  \<open>mod\<close> first: \<open>mod_js_zero\<close>.)
\<close>

theorem modInverse_correct:
  "(is_prime p \<and> 1 \<le> a \<and> a < p \<longrightarrow> (\<exists>r. modInverse a p = Inr r \<and> (a * r) mod p = 1)) \<and>
   (m \<noteq> 0 \<and> b mod m = 0 \<longrightarrow> modInverse b m = Inl NoInverseExists)"
proof (intro conjI impI)
  assume h: "is_prime p \<and> 1 \<le> a \<and> a < p"
  then have "a mod p \<noteq> 0" by auto
  with h show "\<exists>r. modInverse a p = Inr r \<and> (a * r) mod p = 1"
    using modInverse_ok [of p a] by blast
next
  assume "m \<noteq> 0 \<and> b mod m = 0"
  then show "modInverse b m = Inl NoInverseExists" by (simp add: modInverse_zero)
qed

theorem modInverse_correct_witness:
  "is_prime 7 \<and> (1 :: int) \<le> 3 \<and> (3 :: int) < 7 \<and> (\<exists>r. modInverse 3 7 = Inr r \<and> (3 * r) mod 7 = 1) \<and>
   (7 :: int) \<noteq> 0 \<and> (14 :: int) mod 7 = 0 \<and> modInverse 14 7 = Inl NoInverseExists"
proof -
  have p: "is_prime 7" by code_simp
  show ?thesis using p modInverse_correct [of 7 3 7 14] by simp
qed

text \<open>
  C9. For a modulus \<open>m > 0\<close>, a value \<open>reconstructSecret\<close> returns lies in \<open>[0, m)\<close>, and
  \<open>mod\<close> itself returns the representative in \<open>[0, m)\<close>.
\<close>

theorem reconstructSecret_range:
  "0 < m \<Longrightarrow>
   (reconstructSecret shares m = Inr v \<longrightarrow> 0 \<le> v \<and> v < m) \<and>
   (\<exists>r. mod_js n m = Inr r \<and> 0 \<le> r \<and> r < m)"
proof (rule conjI)
  assume m: "0 < m"
  show "reconstructSecret shares m = Inr v \<longrightarrow> 0 \<le> v \<and> v < m"
  proof
    assume r: "reconstructSecret shares m = Inr v"
    then have "shares \<noteq> []" by (auto simp: reconstructSecret_def)
    then have "[0..<length shares] \<noteq> []" by simp
    moreover have "reconstruct_outer shares m [0..<length shares] 0 = Inr v"
      using r by (simp add: reconstructSecret_def split: if_splits)
    ultimately show "0 \<le> v \<and> v < m" using m reconstruct_outer_range by blast
  qed
next
  assume "0 < m"
  then show "\<exists>r. mod_js n m = Inr r \<and> 0 \<le> r \<and> r < m" by (simp add: mod_js_eq)
qed

theorem reconstructSecret_range_witness:
  "(0 :: int) < 10 \<and>
   reconstructSecret [\<lparr>share_x = 1, share_y = 3\<rparr>, \<lparr>share_x = 2, share_y = - 4\<rparr>] 10 = Inr 0 \<and>
   (0 :: int) \<le> 0 \<and> (0 :: int) < 10 \<and> (\<exists>r. mod_js (- 13) 10 = Inr r \<and> 0 \<le> r \<and> r < 10)"
proof -
  have e: "reconstructSecret [\<lparr>share_x = 1, share_y = 3\<rparr>, \<lparr>share_x = 2, share_y = - 4\<rparr>] 10 = Inr 0"
    by code_simp
  have m: "(0 :: int) < 10" by simp
  show ?thesis
    using e reconstructSecret_range [OF m, of "[\<lparr>share_x = 1, share_y = 3\<rparr>, \<lparr>share_x = 2, share_y = - 4\<rparr>]" 0 "- 13"]
    by simp
qed

text \<open>
  C10. Whatever the modulus, \<open>reconstructSecret\<close> on the empty list of shares fails with
  \<open>NoShares\<close> (\<^verbatim>\<open>No shares provided for reconstruction.\<close>); it does not return \<open>0\<close>.
\<close>

theorem reconstructSecret_empty: "reconstructSecret [] prime = Inl NoShares"
  by (simp add: reconstructSecret_def)

section \<open>Properties of the decoders\<close>

lemma toInt32_small: "2 \<le> b \<Longrightarrow> b \<le> 36 \<Longrightarrow> toInt32 (Num b) = b"
  by (simp add: toInt32_def)

lemma is_space_no_digit: "is_space c \<Longrightarrow> digit_value c = None"
  by (auto simp: is_space_def digit_value_def)

lemma sign_no_digit: "digit_value (CHR ''+'') = None" "digit_value (CHR ''-'') = None"
  by (simp_all add: digit_value_def)

lemma parseInt_digit:
  assumes "2 \<le> b" "b \<le> 36"
  shows "parseInt [c] (Num b) = (if is_digit_of b c then Num (int (the (digit_value c))) else NaN)"
proof -
  have r: "toInt32 (Num b) = b" using assms by (rule toInt32_small)
  consider "is_space c" | "c = CHR ''+''" | "c = CHR ''-''"
    | "\<not> is_space c" "c \<noteq> CHR ''+''" "c \<noteq> CHR ''-''" by blast
  then show ?thesis
  proof cases
    case 1
    then show ?thesis using assms
      by (simp add: parseInt_def r Let_def is_digit_of_def is_space_no_digit)
  next
    case 2
    then show ?thesis using assms
      by (simp add: parseInt_def r Let_def is_digit_of_def sign_no_digit is_space_def)
  next
    case 3
    then show ?thesis using assms
      by (simp add: parseInt_def r Let_def is_digit_of_def sign_no_digit is_space_def)
  next
    case 4
    then show ?thesis using assms
      by (auto simp: parseInt_def r Let_def is_digit_of_def digits_to_int_def split: option.splits)
  qed
qed

lemma convert_loop_eq:
  assumes "2 \<le> b" "b \<le> 36"
  shows "convert_loop (Num b) s acc =
     (if list_all (is_digit_of b) s
      then Inr (foldl (\<lambda>a d. a * b + int d) acc (radix_prefix (nat b) s))
      else Inl RangeError)"
proof (induction s arbitrary: acc)
  case Nil
  then show ?case by simp
next
  case (Cons c s)
  show ?case
  proof (cases "is_digit_of b c")
    case True
    then obtain d where d: "digit_value c = Some d" "int d < b"
      by (auto simp: is_digit_of_def split: option.splits)
    then have "d < nat b" by simp
    then show ?thesis using True d assms Cons.IH
      by (simp add: parseInt_digit BigInt_of_number_def)
  next
    case False
    then show ?thesis using assms
      by (simp add: parseInt_digit BigInt_of_number_def)
  qed
qed

lemma radix_prefix_all:
  "list_all (is_digit_of b) s \<Longrightarrow> length (radix_prefix (nat b) s) = length s"
  by (induction s) (auto simp: is_digit_of_def split: option.splits)

text \<open>
  C4. The three pinned examples, \<open>decode("111", 2) = 7\<close>, \<open>decode("a", 16) = 10\<close> and
  \<open>decode("213", 4) = 39\<close>, at both decoders. \<open>convertToDecimal\<close> returns the three
  values. \<open>decodeYValue\<close> returns \<open>111\<close>, raises, and returns \<open>213\<close>: \<open>BigInt\<close> reads its
  first argument as a decimal literal and never sees the base.
\<close>

theorem decode_examples:
  "convertToDecimal ''111'' (Num 2) = Inr 7 \<and>
   convertToDecimal ''a'' (Num 16) = Inr 10 \<and>
   convertToDecimal ''213'' (Num 4) = Inr 39 \<and>
   decodeYValue ''111'' (Num 2) = Inr 111 \<and>
   decodeYValue ''a'' (Num 16) = Inl DecodeError \<and>
   decodeYValue ''213'' (Num 4) = Inr 213"
proof (intro conjI)
  show "convertToDecimal ''111'' (Num 2) = Inr 7" by code_simp
  show "convertToDecimal ''a'' (Num 16) = Inr 10" by code_simp
  show "convertToDecimal ''213'' (Num 4) = Inr 39" by code_simp
  show "decodeYValue ''111'' (Num 2) = Inr 111" by code_simp
  show "decodeYValue ''a'' (Num 16) = Inl DecodeError" by code_simp
  show "decodeYValue ''213'' (Num 4) = Inr 213" by code_simp
qed

text \<open>
  C5, as the code has it. For a base \<open>b\<close> in \<open>[2, 36]\<close>, \<open>convertToDecimal\<close> fails (with
  the RangeError of \<open>BigInt(NaN)\<close>) exactly when some character of the string is not a
  digit of base \<open>b\<close>; when every character is one, it returns the positional value of the
  string; on the empty string it returns \<open>0\<close>.
\<close>

theorem convertToDecimal_decodes:
  assumes "2 \<le> b" "b \<le> 36"
  shows "(convertToDecimal s (Num b) = Inl RangeError \<longleftrightarrow> (\<exists>c\<in>set s. \<not> is_digit_of b c)) \<and>
         ((\<forall>c\<in>set s. is_digit_of b c) \<longrightarrow>
            convertToDecimal s (Num b) = Inr (digits_to_int (nat b) (radix_prefix (nat b) s))) \<and>
         convertToDecimal [] (Num b) = Inr 0"
proof -
  have "int (nat b) = b" using assms by simp
  then have "convertToDecimal s (Num b) =
     (if list_all (is_digit_of b) s then Inr (digits_to_int (nat b) (radix_prefix (nat b) s))
      else Inl RangeError)"
    by (simp add: convertToDecimal_def convert_loop_eq [OF assms] digits_to_int_def)
  then show ?thesis by (auto simp: list_all_iff convertToDecimal_def)
qed

theorem convertToDecimal_decodes_witness:
  "(2 :: int) \<le> 4 \<and> (4 :: int) \<le> 36 \<and> convertToDecimal ''213'' (Num 4) = Inr 39 \<and>
   convertToDecimal ''214'' (Num 4) = Inl RangeError \<and> convertToDecimal [] (Num 4) = Inr 0"
proof -
  have a: "(2 :: int) \<le> 4" "(4 :: int) \<le> 36" by simp_all
  have ok: "\<forall>c\<in>set ''213''. is_digit_of 4 c" by (simp add: is_digit_of_def digit_value_def)
  have bad: "\<exists>c\<in>set ''214''. \<not> is_digit_of 4 c" by (simp add: is_digit_of_def digit_value_def)
  have v: "digits_to_int (nat 4) (radix_prefix (nat 4) ''213'') = 39" by code_simp
  from convertToDecimal_decodes [OF a, of "''213''"] ok v
  have "convertToDecimal ''213'' (Num 4) = Inr 39" by simp
  moreover from convertToDecimal_decodes [OF a, of "''214''"] bad
  have "convertToDecimal ''214'' (Num 4) = Inl RangeError" by simp
  moreover from convertToDecimal_decodes [OF a, of "[]"]
  have "convertToDecimal [] (Num 4) = Inr 0" by (simp add: digits_to_int_def)
  ultimately show ?thesis by simp
qed

text \<open>
  C5 as stated asks for a failure on the empty string. Neither decoder checks for it:
  the fold of \<open>convertToDecimal\<close> starts from \<open>0n\<close> and \<open>BigInt("")\<close> is \<open>0n\<close>.
\<close>

theorem decoders_accept_empty_string:
  "convertToDecimal [] (Num 10) = Inr 0 \<and> decodeYValue [] (Num 10) = Inr 0"
  by (simp add: convertToDecimal_def decodeYValue_def BigInt_of_string_def trim_def)

section \<open>Properties of the pipelines\<close>

lemma collect_shares_count:
  "collect_shares inputData (acc, c) = Inr (shares, c') \<Longrightarrow>
   c' = c + length (filter survives inputData)"
proof (induction inputData arbitrary: acc c)
  case Nil
  then show ?case by simp
next
  case (Cons entry rest)
  obtain key yData where e: "entry = (key, yData)" by (cases entry)
  show ?case
  proof (cases "survives entry")
    case True
    then obtain y where y: "decodeYValue (entry_value yData) (parseInt (entry_base yData) NaN) = Inr y"
      using e by (cases "decodeYValue (entry_value yData) (parseInt (entry_base yData) NaN)") (auto simp: survives_def)
    from Cons.prems True e y obtain acc' where
      "collect_shares rest (acc', c + 1) = Inr (shares, c')"
      by (auto simp: survives_def Let_def split: sum.splits if_splits)
    then have "c' = c + 1 + length (filter survives rest)" by (rule Cons.IH)
    then show ?thesis using True by simp
  next
    case False
    from Cons.prems False e have "collect_shares rest (acc, c) = Inr (shares, c')"
      by (auto simp: survives_def Let_def split: sum.splits if_splits)
    then have "c' = c + length (filter survives rest)" by (rule Cons.IH)
    then show ?thesis using False by simp
  qed
qed

lemma collect_shares_total:
  "list_all (\<lambda>entry. fst entry = ''keys'' \<or> \<not> isl (BigInt_of_string (fst entry))) inputData \<Longrightarrow>
   \<exists>shares c'. collect_shares inputData (acc, c) = Inr (shares, c')"
proof (induction inputData arbitrary: acc c)
  case Nil
  then show ?case by simp
next
  case (Cons entry rest)
  obtain key yData where e: "entry = (key, yData)" by (cases entry)
  have ih: "\<exists>shares c'. collect_shares rest (a, d) = Inr (shares, c')" for a d
    using Cons by simp
  show ?case using Cons.prems e ih
    by (cases "BigInt_of_string key") (auto simp: Let_def split: sum.splits)
qed

lemma processTestCase_secret_needs_k:
  assumes "processTestCase n k inputData prime = Inr secret"
  shows "\<exists>k'. k = JNumber k' \<and> k' \<le> int (length (filter survives inputData))"
proof -
  from assms obtain n' k' where nk: "n = JNumber n'" "k = JNumber k'"
    by (cases n; cases k) (auto simp: processTestCase_def split: if_splits)
  from assms nk obtain shares c where c: "collect_shares inputData ([], 0) = Inr (shares, c)" "\<not> int c < k'"
    by (auto simp: processTestCase_def split: if_splits sum.splits)
  from collect_shares_count [OF c(1)] c(2) nk show ?thesis by simp
qed

lemma processTestCase_insufficient:
  assumes "1 \<le> n'" "2 \<le> k'" "k' \<le> n'"
    and "list_all (\<lambda>entry. fst entry = ''keys'' \<or> \<not> isl (BigInt_of_string (fst entry))) inputData"
    and "int (length (filter survives inputData)) < k'"
  shows "processTestCase (JNumber n') (JNumber k') inputData prime = Inl InsufficientShares"
proof -
  obtain shares c where c: "collect_shares inputData ([], 0) = Inr (shares, c)"
    using collect_shares_total [OF assms(4)] by blast
  from collect_shares_count [OF c] have "c = length (filter survives inputData)" by simp
  then show ?thesis using assms c by (simp add: processTestCase_def)
qed

text \<open>
  C8. With fewer than \<open>k\<close> surviving shares, \<open>processTestCase\<close> reports
  \<open>InsufficientShares\<close> (\<open>processTestCase_insufficient\<close>, and it never yields a secret:
  \<open>processTestCase_secret_needs_k\<close>). main.js has no such check: on an input with two
  shares and \<open>k = 3\<close>, \<open>parseInput\<close> hands the two points to the interpolator, which
  returns a secret.
\<close>

theorem main_js_reconstructs_from_too_few_shares:
  "length (filter survives
     [(''1'', \<lparr>entry_base = ''10'', entry_value = ''4''\<rparr>),
      (''2'', \<lparr>entry_base = ''2'', entry_value = ''111''\<rparr>)]) = 2 \<and>
   main_secret 3
     [(''1'', \<lparr>entry_base = ''10'', entry_value = ''4''\<rparr>),
      (''2'', \<lparr>entry_base = ''2'', entry_value = ''111''\<rparr>)] = Inr 1 \<and>
   processTestCase (JNumber 4) (JNumber 3)
     [(''1'', \<lparr>entry_base = ''10'', entry_value = ''4''\<rparr>),
      (''2'', \<lparr>entry_base = ''2'', entry_value = ''111''\<rparr>)] 101 = Inl InsufficientShares"
proof (intro conjI)
  show "length (filter survives
     [(''1'', \<lparr>entry_base = ''10'', entry_value = ''4''\<rparr>),
      (''2'', \<lparr>entry_base = ''2'', entry_value = ''111''\<rparr>)]) = 2"
    by code_simp
  show "main_secret 3
     [(''1'', \<lparr>entry_base = ''10'', entry_value = ''4''\<rparr>),
      (''2'', \<lparr>entry_base = ''2'', entry_value = ''111''\<rparr>)] = Inr 1"
    by code_simp
  show "processTestCase (JNumber 4) (JNumber 3)
     [(''1'', \<lparr>entry_base = ''10'', entry_value = ''4''\<rparr>),
      (''2'', \<lparr>entry_base = ''2'', entry_value = ''111''\<rparr>)] 101 = Inl InsufficientShares"
    by code_simp
qed

section \<open>Properties of the exact interpolator\<close>

text \<open>
  The reference does recover the constant term: for distinct integer x-coordinates and a
  polynomial with at most as many coefficients, the rational sum is \<open>P(0)\<close>.
\<close>

lemma rational_add_value:
  assumes "snd a \<noteq> 0" "snd b \<noteq> 0"
  shows "snd (rational_add a b) \<noteq> 0"
    and "real_of_int (fst (rational_add a b)) / real_of_int (snd (rational_add a b))
         = real_of_int (fst a) / real_of_int (snd a) + real_of_int (fst b) / real_of_int (snd b)"
  using assms by (simp_all add: rational_add_def field_simps)

lemma foldl_rational_add:
  assumes "snd acc \<noteq> 0" "\<forall>t\<in>set ts. snd t \<noteq> 0"
  shows "snd (foldl rational_add acc ts) \<noteq> 0 \<and>
     real_of_int (fst (foldl rational_add acc ts)) / real_of_int (snd (foldl rational_add acc ts))
       = real_of_int (fst acc) / real_of_int (snd acc)
         + (\<Sum>t\<leftarrow>ts. real_of_int (fst t) / real_of_int (snd t))"
  using assms
proof (induction ts arbitrary: acc)
  case Nil
  then show ?case by simp
next
  case (Cons t ts)
  have t: "snd t \<noteq> 0" using Cons.prems by simp
  have "snd (rational_add acc t) \<noteq> 0" using Cons.prems(1) t by (rule rational_add_value(1))
  moreover have "\<forall>t\<in>set ts. snd t \<noteq> 0" using Cons.prems by simp
  ultimately have "snd (foldl rational_add (rational_add acc t) ts) \<noteq> 0 \<and>
     real_of_int (fst (foldl rational_add (rational_add acc t) ts))
       / real_of_int (snd (foldl rational_add (rational_add acc t) ts))
       = real_of_int (fst (rational_add acc t)) / real_of_int (snd (rational_add acc t))
         + (\<Sum>t\<leftarrow>ts. real_of_int (fst t) / real_of_int (snd t))"
    by (rule Cons.IH)
  then show ?case using rational_add_value(2) [OF Cons.prems(1) t] by (simp add: add.assoc)
qed

lemma sdiv_exact: "d \<noteq> 0 \<Longrightarrow> (v * d) sdiv d = (v :: int)"
  by (simp add: signed_divide_int_def abs_mult sgn_mult) (simp add: sgn_if)

lemma reference_recovers_constant_term:
  assumes "distinct xs" "xs \<noteq> []" "length cs \<le> length xs"
  shows "reference_interpolateAtZero (map (\<lambda>x. (x, poly_eval cs x)) xs) = Inr (poly_eval cs 0)"
proof -
  let ?pts = "map (\<lambda>x. (x, poly_eval cs x)) xs"
  let ?k = "length xs"
  let ?x = "\<lambda>j. real_of_int (xs ! j)"
  let ?ts = "map (reference_term ?pts) [0..<?k]"
  have fstt: "fst (reference_term ?pts i) = poly_eval cs (xs ! i) * (\<Prod>j\<in>{..<?k} - {i}. - (xs ! j))"
    and sndt: "snd (reference_term ?pts i) = (\<Prod>j\<in>{..<?k} - {i}. xs ! i - xs ! j)" if "i < ?k" for i
  proof -
    have "(\<Prod>j\<leftarrow>filter (\<lambda>j. j \<noteq> i) [0..<?k]. - fst (?pts ! j)) = (\<Prod>j\<in>{..<?k} - {i}. - fst (?pts ! j))"
      by (rule prod_list_others)
    also have "\<dots> = (\<Prod>j\<in>{..<?k} - {i}. - (xs ! j))" by (intro prod.cong) auto
    finally show "fst (reference_term ?pts i) = poly_eval cs (xs ! i) * (\<Prod>j\<in>{..<?k} - {i}. - (xs ! j))"
      using that by (simp add: reference_term_def)
    have "(\<Prod>j\<leftarrow>filter (\<lambda>j. j \<noteq> i) [0..<?k]. fst (?pts ! i) - fst (?pts ! j))
        = (\<Prod>j\<in>{..<?k} - {i}. fst (?pts ! i) - fst (?pts ! j))"
      by (rule prod_list_others)
    also have "\<dots> = (\<Prod>j\<in>{..<?k} - {i}. xs ! i - xs ! j)" using that by (intro prod.cong) auto
    finally show "snd (reference_term ?pts i) = (\<Prod>j\<in>{..<?k} - {i}. xs ! i - xs ! j)"
      by (simp add: reference_term_def)
  qed
  have nz: "snd (reference_term ?pts i) \<noteq> 0" if "i < ?k" for i
    using that assms(1) by (auto simp: sndt nth_eq_iff_index_eq)
  have allnz: "\<forall>t\<in>set ?ts. snd t \<noteq> 0" using nz by auto
  have inj: "inj_on ?x {..<?k}"
    using assms(1) by (auto simp: inj_on_def nth_eq_iff_index_eq)
  have deg: "length cs - 1 < ?k" using assms(2,3) by (cases xs) auto
  have lag: "(\<Sum>j<?k. real_poly cs (?x j) * (\<Prod>m\<in>{..<?k} - {j}. (0 - ?x m) / (?x j - ?x m))) = real_poly cs 0"
    using inj polyfun_le_real_poly deg by (rule lagrange_interpolation)
  have "(\<Sum>t\<leftarrow>?ts. real_of_int (fst t) / real_of_int (snd t))
      = (\<Sum>i<?k. real_of_int (fst (reference_term ?pts i)) / real_of_int (snd (reference_term ?pts i)))"
    by (simp add: comp_def interv_sum_list_conv_sum_set_nat atLeast0LessThan)
  also have "\<dots> = (\<Sum>j<?k. real_poly cs (?x j) * (\<Prod>m\<in>{..<?k} - {j}. (0 - ?x m) / (?x j - ?x m)))"
  proof (intro sum.cong refl)
    fix j assume "j \<in> {..<?k}"
    then have j: "j < ?k" by simp
    have "(\<Prod>m\<in>{..<?k} - {j}. (0 - ?x m) / (?x j - ?x m))
        = (\<Prod>m\<in>{..<?k} - {j}. - ?x m) / (\<Prod>m\<in>{..<?k} - {j}. ?x j - ?x m)"
      by (simp only: prod_dividef diff_0)
    then show "real_of_int (fst (reference_term ?pts j)) / real_of_int (snd (reference_term ?pts j))
        = real_poly cs (?x j) * (\<Prod>m\<in>{..<?k} - {j}. (0 - ?x m) / (?x j - ?x m))"
      by (simp only: fstt [OF j] sndt [OF j] real_poly_of_int of_int_mult of_int_prod
            of_int_minus of_int_diff times_divide_eq_right)
  qed
  also have "\<dots> = real_of_int (poly_eval cs 0)"
    using lag real_poly_of_int [of cs 0] by simp
  finally have total: "(\<Sum>t\<leftarrow>?ts. real_of_int (fst t) / real_of_int (snd t)) = real_of_int (poly_eval cs 0)" .
  let ?total = "foldl rational_add (0, 1) ?ts"
  from foldl_rational_add [of "(0, 1)" ?ts] allnz total
  have d: "snd ?total \<noteq> 0"
    and v: "real_of_int (fst ?total) / real_of_int (snd ?total) = real_of_int (poly_eval cs 0)"
    by simp_all
  from v d have "real_of_int (fst ?total) = real_of_int (poly_eval cs 0 * snd ?total)"
    by (simp add: field_simps)
  then have "fst ?total = poly_eval cs 0 * snd ?total" by (simp only: of_int_eq_iff)
  then have "fst ?total sdiv snd ?total = poly_eval cs 0" using d by (simp add: sdiv_exact)
  then show ?thesis using d by (simp add: reference_interpolateAtZero_def Let_def)
qed

text \<open>
  C2. \<open>lagrangeInterpolationAtZero\<close> on the points of \<open>P(x) = x^2 + 1\<close> at \<open>x = 1, 2, 4\<close>,
  that is \<open>(1, 2)\<close>, \<open>(2, 5)\<close> and \<open>(4, 17)\<close>: the terms are \<open>16/3\<close>, \<open>-10\<close> and \<open>17/3\<close>,
  which the BigInt division truncates to \<open>5\<close>, \<open>-10\<close> and \<open>5\<close>. The result is \<open>0\<close>; the
  constant term is \<open>1\<close>, which the reference returns (\<open>reference_recovers_constant_term\<close>).
\<close>

theorem lagrangeInterpolationAtZero_misses_constant_term:
  "lagrangeInterpolationAtZero
     (map (\<lambda>x. (Num x, poly_eval [1, 0, 1] x)) [1, 2, 4]) = Inr 0 \<and>
   poly_eval [1, 0, 1] 0 = 1"
proof (intro conjI)
  show "lagrangeInterpolationAtZero (map (\<lambda>x. (Num x, poly_eval [1, 0, 1] x)) [1, 2, 4]) = Inr 0"
    by code_simp
  show "poly_eval [1, 0, 1] 0 = 1" by simp
qed

text \<open>
  C3. \<open>lagrangeInterpolationAtZero\<close> against the rational reference on the points
  \<open>(1, 1)\<close>, \<open>(2, 1)\<close>, \<open>(4, 1)\<close>: the terms \<open>8/3\<close>, \<open>-2\<close> and \<open>1/3\<close> sum to \<open>1\<close>, and the
  code, dividing each term on its own, adds \<open>2\<close>, \<open>-2\<close> and \<open>0\<close>.
\<close>

theorem lagrangeInterpolationAtZero_truncates_per_term:
  "lagrangeInterpolationAtZero (map number_point [(1, 1), (2, 1), (4, 1)]) = Inr 0 \<and>
   reference_interpolateAtZero [(1, 1), (2, 1), (4, 1)] = Inr 1"
proof (intro conjI)
  show "lagrangeInterpolationAtZero (map number_point [(1, 1), (2, 1), (4, 1)]) = Inr 0"
    by code_simp
  show "reference_interpolateAtZero [(1, 1), (2, 1), (4, 1)] = Inr 1"
    by code_simp
qed

end
